theory Spec2Isabelle
  imports Main "HOL-Library.Word" "HOL-Library.Multiset"
begin

section \<open>Data model of \<open>puller_util.cpp\<close>\<close>

text \<open>
  The file \<open>cmds/statsd/src/external/puller_util.cpp\<close> holds one function,
  \<open>mapAndMergeIsolatedUidsToHostUid\<close>. It works on a vector of log events; each event
  carries a tag id and a vector of field values. The classes \<open>Field\<close>, \<open>Value\<close>,
  \<open>FieldValue\<close>, \<open>LogEvent\<close> and \<open>UidMap\<close> and the atom tables are declared in
  other files, so the field type \<open>'f\<close> and the value type \<open>'v\<close> stay type parameters
  and every operation on them that the function calls is a parameter of the model.

  C++ \<open>int\<close> values that are only compared or looked up (tag ids, field numbers, the
  result of \<open>getPosAtDepth\<close>) are \<open>int\<close>; the payload \<open>int_value\<close> is a 32-bit word.
  The cast \<open>(int)data.size()\<close> is the identity for vectors of fewer than \<open>2^31\<close>
  elements, which is what the model covers.
\<close>

record ('f, 'v) FieldValue =
  mField :: 'f
  mValue :: 'v

text \<open>
  A \<open>LogEvent\<close> as far as the function reads it: \<open>GetTagId()\<close> and the vector behind
  \<open>getValues()\<close> and \<open>getMutableValues()\<close>. \<open>LogEvent::size()\<close> is the number of
  values, written \<open>length (getValues e)\<close>. The vector holds shared pointers; the model
  is a list of event values, which is the same thing as long as no two entries of the
  vector point to one event.
\<close>

record ('f, 'v) LogEvent =
  GetTagId :: int
  getValues :: "('f, 'v) FieldValue list"

text \<open>The entry of \<open>StatsPullerManager::kAllPullAtomInfo\<close>, as far as it is read.\<close>

record PullAtomInfo =
  additiveFields :: "int list"

text \<open>
  The static tables the function consults: \<open>StatsPullerManager::kAllPullAtomInfo\<close>
  (a map), \<open>AtomsInfo::kAtomsWithAttributionChain\<close> (a set) and
  \<open>AtomsInfo::kAtomsWithUidField\<close> (a map from tag id to the 1-based uid field).
\<close>

record AtomTables =
  kAllPullAtomInfo :: "int \<rightharpoonup> PullAtomInfo"
  kAtomsWithAttributionChain :: "int set"
  kAtomsWithUidField :: "int \<rightharpoonup> int"

text \<open>
  The operations of \<open>Field\<close>, \<open>Value\<close> and \<open>FieldValue\<close> that the function calls,
  and the constant \<open>kAttributionField\<close>:
  \<^item> \<open>getPosAtDepth f d\<close> is \<open>f.getPosAtDepth(d)\<close>;
  \<^item> \<open>fvNotEqual a b\<close> is \<open>a != b\<close> and \<open>fvLess a b\<close> is \<open>a < b\<close> on \<open>FieldValue\<close>;
  \<^item> \<open>typeIsINT v\<close> is \<open>v.getType() == INT\<close>, \<open>int_value v\<close> reads \<open>v.int_value\<close>,
    \<open>setInt v n\<close> is \<open>v\<close> after \<open>v.setInt(n)\<close>;
  \<^item> \<open>plusAssign v w\<close> is \<open>v\<close> after \<open>v += w\<close>.
\<close>

record ('f, 'v) FieldOps =
  kAttributionField :: int
  getPosAtDepth :: "'f \<Rightarrow> nat \<Rightarrow> int"
  isAttributionUidField :: "('f, 'v) FieldValue \<Rightarrow> bool"
  fvNotEqual :: "('f, 'v) FieldValue \<Rightarrow> ('f, 'v) FieldValue \<Rightarrow> bool"
  fvLess :: "('f, 'v) FieldValue \<Rightarrow> ('f, 'v) FieldValue \<Rightarrow> bool"
  typeIsINT :: "'v \<Rightarrow> bool"
  int_value :: "'v \<Rightarrow> 32 word"
  setInt :: "'v \<Rightarrow> 32 word \<Rightarrow> 'v"
  plusAssign :: "'v \<Rightarrow> 'v \<Rightarrow> 'v"

text \<open>
  How a call ends. The function returns \<open>void\<close>; the ways out are told apart by the
  log line written before the \<open>return\<close>:
  \<^item> \<open>UnknownPullAtom\<close>: "Unknown pull atom id" (line 60);
  \<^item> \<open>NoUidOrChain\<close>: "No uid or attribution chain to merge" (line 67);
  \<^item> \<open>WrongAtom\<close>: "Wrong atom. Expecting ..., got ..." (line 74);
  \<^item> \<open>MalformedLog\<close>: "Malformed log, uid not found." (line 99);
  \<^item> \<open>Merged\<close>: the end of the function is reached (line 168);
  \<^item> \<open>BackOfEmptyVector\<close>: \<open>data.back()\<close> is evaluated on an empty vector (line 164),
    which C++ leaves undefined.
\<close>

datatype Outcome =
  UnknownPullAtom | NoUidOrChain | WrongAtom | MalformedLog | Merged | BackOfEmptyVector

section \<open>Step 1: mapping isolated uids to host uids\<close>

text \<open>
  Lines 84 and 85, and again lines 96 and 97: the value's \<open>int_value\<close> is replaced by
  \<open>uidMap->getHostUidOrSelf\<close> of it. The uid map is only read; it is the function
  \<open>getHostUidOrSelf\<close> here.
\<close>

definition toHostUid ::
  "('f, 'v) FieldOps \<Rightarrow> (32 word \<Rightarrow> 32 word) \<Rightarrow> ('f, 'v) FieldValue \<Rightarrow> ('f, 'v) FieldValue" where
  "toHostUid ops getHostUidOrSelf fv =
     fv\<lparr>mValue := setInt ops (mValue fv) (getHostUidOrSelf (int_value ops (mValue fv)))\<rparr>"

text \<open>
  Lines 79 to 87, the loop over the values of one event of an atom with an attribution
  chain. The loop ends at the first value whose position at depth 0 is beyond
  \<open>kAttributionField\<close>.
\<close>

fun mapAttributionChain ::
  "('f, 'v) FieldOps \<Rightarrow> (32 word \<Rightarrow> 32 word) \<Rightarrow> ('f, 'v) FieldValue list
     \<Rightarrow> ('f, 'v) FieldValue list" where
  "mapAttributionChain ops getHostUidOrSelf [] = []"
| "mapAttributionChain ops getHostUidOrSelf (fv # rest) =
     (if getPosAtDepth ops (mField fv) 0 > kAttributionField ops then fv # rest
      else (if isAttributionUidField ops fv then toHostUid ops getHostUidOrSelf fv else fv)
           # mapAttributionChain ops getHostUidOrSelf rest)"

text \<open>
  Lines 95 to 97: the values of an event after the value at the 1-based position
  \<open>uidField\<close> has been mapped to its host uid.
\<close>

definition hostUidAt ::
  "('f, 'v) FieldOps \<Rightarrow> (32 word \<Rightarrow> 32 word) \<Rightarrow> int \<Rightarrow> ('f, 'v) FieldValue list
     \<Rightarrow> ('f, 'v) FieldValue list" where
  "hostUidAt ops getHostUidOrSelf uidField vals =
     vals[nat (uidField - 1) := toHostUid ops getHostUidOrSelf (vals ! nat (uidField - 1))]"

text \<open>
  Lines 93 to 101, the uid field of an atom without attribution chain. \<open>None\<close> is the
  \<open>else\<close> branch that logs "Malformed log" and returns. The three conjuncts are tested
  in the source's order, so the indexing happens only in range.
\<close>

definition mapUidField ::
  "('f, 'v) FieldOps \<Rightarrow> (32 word \<Rightarrow> 32 word) \<Rightarrow> int \<Rightarrow> ('f, 'v) FieldValue list
     \<Rightarrow> ('f, 'v) FieldValue list option" where
  "mapUidField ops getHostUidOrSelf uidField vals =
     (if uidField > 0 then
        (if int (length vals) \<ge> uidField then
           (if typeIsINT ops (mValue (vals ! nat (uidField - 1))) then
              Some (hostUidAt ops getHostUidOrSelf uidField vals)
            else None)
         else None)
      else None)"

text \<open>
  Lines 73 to 103, the body of the loop over the events, for one event: \<open>Inl\<close> is an
  early return with its outcome, \<open>Inr\<close> the event after the body.
\<close>

definition mapEvent ::
  "('f, 'v) FieldOps \<Rightarrow> AtomTables \<Rightarrow> (32 word \<Rightarrow> 32 word) \<Rightarrow> int \<Rightarrow> ('f, 'v) LogEvent
     \<Rightarrow> Outcome + ('f, 'v) LogEvent" where
  "mapEvent ops tables getHostUidOrSelf tagId event =
     (if GetTagId event \<noteq> tagId then Inl WrongAtom
      else if tagId \<in> kAtomsWithAttributionChain tables then
        Inr (event\<lparr>getValues := mapAttributionChain ops getHostUidOrSelf (getValues event)\<rparr>)
      else (case kAtomsWithUidField tables tagId of
              None \<Rightarrow> Inr event
            | Some uidField \<Rightarrow>
                (case mapUidField ops getHostUidOrSelf uidField (getValues event) of
                   None \<Rightarrow> Inl MalformedLog
                 | Some vals \<Rightarrow> Inr (event\<lparr>getValues := vals\<rparr>))))"

text \<open>
  Lines 72 to 104, the loop over \<open>data\<close>. The result is the early return, if any, and
  the vector as the loop leaves it: the events before the one that returns are mapped
  in place, that event and the ones after it are as they were.
\<close>

fun mapIsolatedUids ::
  "('f, 'v) FieldOps \<Rightarrow> AtomTables \<Rightarrow> (32 word \<Rightarrow> 32 word) \<Rightarrow> int \<Rightarrow> ('f, 'v) LogEvent list
     \<Rightarrow> Outcome option \<times> ('f, 'v) LogEvent list" where
  "mapIsolatedUids ops tables getHostUidOrSelf tagId [] = (None, [])"
| "mapIsolatedUids ops tables getHostUidOrSelf tagId (event # rest) =
     (case mapEvent ops tables getHostUidOrSelf tagId event of
        Inl outcome \<Rightarrow> (Some outcome, event # rest)
      | Inr event' \<Rightarrow>
          (case mapIsolatedUids ops tables getHostUidOrSelf tagId rest of
             (r, rest') \<Rightarrow> (r, event' # rest')))"

section \<open>Step 2: sorting\<close>

text \<open>Lines 114 to 119, the loop of the comparison, on two vectors of one size.\<close>

fun lessValues ::
  "('f, 'v) FieldOps \<Rightarrow> ('f, 'v) FieldValue list \<Rightarrow> ('f, 'v) FieldValue list \<Rightarrow> bool" where
  "lessValues ops (l # lhsValues) (r # rhsValues) =
     (if fvNotEqual ops l r then fvLess ops l r else lessValues ops lhsValues rhsValues)"
| "lessValues ops _ _ = False"

text \<open>Lines 108 to 120, the comparison handed to \<open>sort\<close>.\<close>

definition lessEvent ::
  "('f, 'v) FieldOps \<Rightarrow> ('f, 'v) LogEvent \<Rightarrow> ('f, 'v) LogEvent \<Rightarrow> bool" where
  "lessEvent ops lhs rhs =
     (if length (getValues lhs) \<noteq> length (getValues rhs)
      then length (getValues lhs) < length (getValues rhs)
      else lessValues ops (getValues lhs) (getValues rhs))"

text \<open>
  \<open>std::sort\<close> with that comparison. The standard asks for a strict weak ordering and
  then fixes the result up to the order of events that compare equivalent; the model
  sorts by insertion and keeps such events in their order. What is proved about a sorted
  batch below is proved where \<open>!=\<close> and \<open><\<close> on \<open>FieldValue\<close> make the comparison a
  strict weak ordering (\<open>fieldValuesOrdered\<close>).
\<close>

fun insertEvent ::
  "('f, 'v) FieldOps \<Rightarrow> ('f, 'v) LogEvent \<Rightarrow> ('f, 'v) LogEvent list \<Rightarrow> ('f, 'v) LogEvent list" where
  "insertEvent ops e [] = [e]"
| "insertEvent ops e (x # xs) =
     (if lessEvent ops x e then x # insertEvent ops e xs else e # x # xs)"

definition sortEvents ::
  "('f, 'v) FieldOps \<Rightarrow> ('f, 'v) LogEvent list \<Rightarrow> ('f, 'v) LogEvent list" where
  "sortEvents ops data = foldr (insertEvent ops) data []"

section \<open>Step 3: merging\<close>

text \<open>
  Lines 141 to 151: \<open>needMerge\<close> after the loop over the positions of two value vectors
  of one size.
\<close>

fun needMerge ::
  "('f, 'v) FieldOps \<Rightarrow> int set \<Rightarrow> ('f, 'v) FieldValue list \<Rightarrow> ('f, 'v) FieldValue list
     \<Rightarrow> bool" where
  "needMerge ops additive (l # lhsValues) (r # rhsValues) =
     (if fvNotEqual ops l r then
        (if getPosAtDepth ops (mField l) 0 \<in> additive
         then needMerge ops additive lhsValues rhsValues
         else False)
      else needMerge ops additive lhsValues rhsValues)"
| "needMerge ops additive _ _ = True"

text \<open>Lines 157 to 162: the right vector after the left one is added onto it.\<close>

fun addOnto ::
  "('f, 'v) FieldOps \<Rightarrow> int set \<Rightarrow> ('f, 'v) FieldValue list \<Rightarrow> ('f, 'v) FieldValue list
     \<Rightarrow> ('f, 'v) FieldValue list" where
  "addOnto ops additive (l # lhsValues) (r # rhsValues) =
     (if getPosAtDepth ops (mField l) 0 \<in> additive
      then r\<lparr>mValue := plusAssign ops (mValue r) (mValue l)\<rparr>
      else r)
     # addOnto ops additive lhsValues rhsValues"
| "addOnto ops additive _ rhsValues = rhsValues"

text \<open>The same on events: \<open>data[i + 1]\<close> after \<open>data[i]\<close> has been added onto it.\<close>

definition mergeOnto ::
  "('f, 'v) FieldOps \<Rightarrow> int set \<Rightarrow> ('f, 'v) LogEvent \<Rightarrow> ('f, 'v) LogEvent \<Rightarrow> ('f, 'v) LogEvent" where
  "mergeOnto ops additive lhs rhs =
     rhs\<lparr>getValues := addOnto ops additive (getValues lhs) (getValues rhs)\<rparr>"

text \<open>
  Lines 133 to 163, the merge loop, with its state: the index \<open>i\<close>, the vector \<open>data\<close>
  (whose element \<open>i + 1\<close> the loop may overwrite) and \<open>mergedData\<close>.
\<close>

function mergeLoop ::
  "('f, 'v) FieldOps \<Rightarrow> int set \<Rightarrow> nat \<Rightarrow> ('f, 'v) LogEvent list \<Rightarrow> ('f, 'v) LogEvent list
     \<Rightarrow> ('f, 'v) LogEvent list \<times> ('f, 'v) LogEvent list" where
  "mergeLoop ops additive i data mergedData =
     (if int i < int (length data) - 1 then
        (if length (getValues (data ! i)) \<noteq> length (getValues (data ! (i + 1)))
         then mergeLoop ops additive (i + 1) data (mergedData @ [data ! i])
         else if \<not> needMerge ops additive (getValues (data ! i)) (getValues (data ! (i + 1)))
         then mergeLoop ops additive (i + 1) data (mergedData @ [data ! i])
         else mergeLoop ops additive (i + 1)
                (data[i + 1 := mergeOnto ops additive (data ! i) (data ! (i + 1))])
                mergedData)
      else (data, mergedData))"
  by pat_completeness auto
termination
  by (relation "measure (\<lambda>(ops, additive, i, data, mergedData). length data - i)") auto

declare mergeLoop.simps [simp del]

text \<open>
  Lines 122 to 167: the merge of a sorted vector. \<open>None\<close> stands for \<open>data.back()\<close>
  on an empty vector.
\<close>

definition mergeSorted ::
  "('f, 'v) FieldOps \<Rightarrow> int set \<Rightarrow> ('f, 'v) LogEvent list \<Rightarrow> ('f, 'v) LogEvent list option" where
  "mergeSorted ops additive data =
     (case mergeLoop ops additive 0 data [] of
        (data', mergedData) \<Rightarrow>
          (if data' = [] then None else Some (mergedData @ [last data'])))"

section \<open>The function\<close>

text \<open>
  \<open>mapAndMergeIsolatedUidsToHostUid\<close>, lines 56 to 168. The result is the outcome and
  the vector \<open>data\<close> as the call leaves it.
\<close>

definition mapAndMergeIsolatedUidsToHostUid ::
  "('f, 'v) FieldOps \<Rightarrow> AtomTables \<Rightarrow> ('f, 'v) LogEvent list \<Rightarrow> (32 word \<Rightarrow> 32 word) \<Rightarrow> int
     \<Rightarrow> Outcome \<times> ('f, 'v) LogEvent list" where
  "mapAndMergeIsolatedUidsToHostUid ops tables data getHostUidOrSelf tagId =
     (case kAllPullAtomInfo tables tagId of
        None \<Rightarrow> (UnknownPullAtom, data)
      | Some info \<Rightarrow>
          (if tagId \<notin> kAtomsWithAttributionChain tables \<and> kAtomsWithUidField tables tagId = None
           then (NoUidOrChain, data)
           else (case mapIsolatedUids ops tables getHostUidOrSelf tagId data of
                   (Some outcome, data1) \<Rightarrow> (outcome, data1)
                 | (None, data1) \<Rightarrow>
                     (case mergeSorted ops (set (additiveFields info)) (sortEvents ops data1) of
                        None \<Rightarrow> (BackOfEmptyVector, sortEvents ops data1)
                      | Some mergedData \<Rightarrow> (Merged, mergedData)))))"

section \<open>Notions used to state the properties\<close>

text \<open>
  Merge-eligible, in the words of the specification: two events are merge-eligible when
  they have the same number of values and every field position at which their values
  differ is in the additive set. A value is a field with its content, and the position
  of a field is the one its path gives at depth 0. So, at every index where the two
  values differ, the field of the left event and the field of the right event both have
  an additive position. The notion does not depend on the order of the two events.
\<close>

definition mergeEligible ::
  "('f, 'v) FieldOps \<Rightarrow> int set \<Rightarrow> ('f, 'v) LogEvent \<Rightarrow> ('f, 'v) LogEvent \<Rightarrow> bool" where
  "mergeEligible ops additive lhs rhs =
     (length (getValues lhs) = length (getValues rhs)
      \<and> (\<forall>p < length (getValues lhs).
            fvNotEqual ops (getValues lhs ! p) (getValues rhs ! p)
            \<longrightarrow> getPosAtDepth ops (mField (getValues lhs ! p)) 0 \<in> additive
                \<and> getPosAtDepth ops (mField (getValues rhs ! p)) 0 \<in> additive))"

text \<open>
  The uid of an event is missing: the event has fewer than \<open>uidField\<close> values, or its
  value at that 1-based position is not an \<open>INT\<close>.
\<close>

definition uidFieldMissing ::
  "('f, 'v) FieldOps \<Rightarrow> int \<Rightarrow> ('f, 'v) LogEvent \<Rightarrow> bool" where
  "uidFieldMissing ops uidField e =
     (int (length (getValues e)) < uidField
      \<or> \<not> typeIsINT ops (mValue (getValues e ! nat (uidField - 1))))"

text \<open>
  The merge loop seen as a recursion over the vector from the current index on: what
  the loop appends to \<open>mergedData\<close>, followed by the last element.
\<close>

fun mergeRuns ::
  "('f, 'v) FieldOps \<Rightarrow> int set \<Rightarrow> ('f, 'v) LogEvent list \<Rightarrow> ('f, 'v) LogEvent list" where
  "mergeRuns ops additive (lhs # rhs # rest) =
     (if length (getValues lhs) = length (getValues rhs)
         \<and> needMerge ops additive (getValues lhs) (getValues rhs)
      then mergeRuns ops additive (mergeOnto ops additive lhs rhs # rest)
      else lhs # mergeRuns ops additive (rhs # rest))"
| "mergeRuns ops additive [e] = [e]"
| "mergeRuns ops additive [] = []"

text \<open>
  The order on records that the sort is meant to realise: fewer values first, and among
  events with the same number of values the lexicographic order of the value vectors
  under \<open><\<close> on \<open>FieldValue\<close>.
\<close>

definition recordOrder ::
  "('f, 'v) FieldOps \<Rightarrow> ('f, 'v) LogEvent \<Rightarrow> ('f, 'v) LogEvent \<Rightarrow> bool" where
  "recordOrder ops a b =
     (length (getValues a) < length (getValues b)
      \<or> (length (getValues a) = length (getValues b)
          \<and> (getValues a, getValues b) \<in> lexord {(x, y). fvLess ops x y}))"

text \<open>
  What the comparison and the merge take for granted about \<open>FieldValue\<close>: \<open>!=\<close> is
  inequality and \<open><\<close> is a strict total order.
\<close>

definition fieldValuesOrdered :: "('f, 'v) FieldOps \<Rightarrow> bool" where
  "fieldValuesOrdered ops =
     ((\<forall>x y. fvNotEqual ops x y = (x \<noteq> y))
      \<and> (\<forall>x. \<not> fvLess ops x x)
      \<and> (\<forall>x y z. fvLess ops x y \<longrightarrow> fvLess ops y z \<longrightarrow> fvLess ops x z)
      \<and> (\<forall>x y. x \<noteq> y \<longrightarrow> fvLess ops x y \<or> fvLess ops y x))"

text \<open>
  Sums of values. The model does not fix what number a \<open>Value\<close> holds, so a sum is
  taken under a reading \<open>num\<close> of values as elements of a commutative monoid (for
  \<open>INT\<close> values: \<open>int_value\<close>, a 32-bit word, whose addition wraps around).
  \<open>eventTotal\<close> adds up the values of one event whose position at depth 0 is \<open>pos\<close>,
  \<open>fieldTotal\<close> does so over a batch.
\<close>

definition eventTotal ::
  "('f, 'v) FieldOps \<Rightarrow> ('v \<Rightarrow> 'n::comm_monoid_add) \<Rightarrow> int \<Rightarrow> ('f, 'v) LogEvent \<Rightarrow> 'n" where
  "eventTotal ops num pos e =
     sum_list (map (\<lambda>fv. num (mValue fv))
                 (filter (\<lambda>fv. getPosAtDepth ops (mField fv) 0 = pos) (getValues e)))"

definition fieldTotal ::
  "('f, 'v) FieldOps \<Rightarrow> ('v \<Rightarrow> 'n::comm_monoid_add) \<Rightarrow> int \<Rightarrow> ('f, 'v) LogEvent list \<Rightarrow> 'n" where
  "fieldTotal ops num pos data = sum_list (map (eventTotal ops num pos) data)"

text \<open>
  \<open>+=\<close> on \<open>Value\<close> adds under the reading \<open>num\<close> on the values that satisfy
  \<open>summable\<close> (for instance: on \<open>INT\<close> values), and its result is such a value again.
\<close>

definition plusAssignAdds ::
  "('f, 'v) FieldOps \<Rightarrow> ('v \<Rightarrow> bool) \<Rightarrow> ('v \<Rightarrow> 'n::comm_monoid_add) \<Rightarrow> bool" where
  "plusAssignAdds ops summable num =
     (\<forall>v w. summable v \<and> summable w
            \<longrightarrow> summable (plusAssign ops v w) \<and> num (plusAssign ops v w) = num v + num w)"

text \<open>The values of an event at additive positions are \<open>summable\<close>.\<close>

definition additiveSummable ::
  "('f, 'v) FieldOps \<Rightarrow> int set \<Rightarrow> ('v \<Rightarrow> bool) \<Rightarrow> ('f, 'v) LogEvent \<Rightarrow> bool" where
  "additiveSummable ops additive summable e =
     (\<forall>fv \<in> set (getValues e).
        getPosAtDepth ops (mField fv) 0 \<in> additive \<longrightarrow> summable (mValue fv))"

text \<open>The positions at depth 0 of the values of an event, in order.\<close>

definition positions :: "('f, 'v) FieldOps \<Rightarrow> ('f, 'v) LogEvent \<Rightarrow> int list" where
  "positions ops e = map (\<lambda>fv. getPosAtDepth ops (mField fv) 0) (getValues e)"

text \<open>
  All fields are present: two events of the batch with the same number of values have
  the same positions at depth 0, index by index.
\<close>

definition allFieldsPresent :: "('f, 'v) FieldOps \<Rightarrow> ('f, 'v) LogEvent list \<Rightarrow> bool" where
  "allFieldsPresent ops data =
     (\<forall>a \<in> set data. \<forall>b \<in> set data.
        length (getValues a) = length (getValues b) \<longrightarrow> positions ops a = positions ops b)"

text \<open>
  The additive values of an event are its last \<open>k\<close> values: the value at index \<open>p\<close>
  has an additive position at depth 0 exactly when \<open>p\<close> is among the last \<open>k\<close>
  indices.
\<close>

definition additiveLast ::
  "('f, 'v) FieldOps \<Rightarrow> int set \<Rightarrow> nat \<Rightarrow> ('f, 'v) LogEvent \<Rightarrow> bool" where
  "additiveLast ops additive k e =
     (\<forall>p < length (getValues e).
        (getPosAtDepth ops (mField (getValues e ! p)) 0 \<in> additive)
          = (length (getValues e) - k \<le> p))"

text \<open>
  The number of values of an event and its values before the last \<open>k\<close>: what decides
  whether two events merge when the additive values are the last \<open>k\<close>.
\<close>

definition mergeKey ::
  "nat \<Rightarrow> ('f, 'v) LogEvent \<Rightarrow> nat \<times> ('f, 'v) FieldValue list" where
  "mergeKey k e = (length (getValues e), take (length (getValues e) - k) (getValues e))"

text \<open>
  The order on merge keys: the number of values first, then the lexicographic order of
  the values before the last \<open>k\<close>.
\<close>

definition keyOrder ::
  "('f, 'v) FieldOps
     \<Rightarrow> ((nat \<times> ('f, 'v) FieldValue list) \<times> (nat \<times> ('f, 'v) FieldValue list)) set" where
  "keyOrder ops = less_than <*lex*> lexord {(x, y). fvLess ops x y}"

section \<open>A concrete instance\<close>

text \<open>
  One instance of the parameters, used to run the function on concrete batches. A field
  is the pair of its position at depth 0 and its position inside an attribution node
  (0 outside a chain); a value is a 32-bit \<open>INT\<close> or a 64-bit \<open>LONG\<close>; \<open>!=\<close> is
  inequality and \<open><\<close> compares the field first and the value second, values of one
  type as signed numbers and \<open>INT\<close> before \<open>LONG\<close>.
\<close>

datatype exValue = IntValue "32 word" | LongValue "64 word"

type_synonym exField = "int \<times> int"

fun exIsInt :: "exValue \<Rightarrow> bool" where
  "exIsInt (IntValue n) = True"
| "exIsInt (LongValue n) = False"

fun exIntOf :: "exValue \<Rightarrow> 32 word" where
  "exIntOf (IntValue n) = n"
| "exIntOf (LongValue n) = ucast n"

fun exPlus :: "exValue \<Rightarrow> exValue \<Rightarrow> exValue" where
  "exPlus (IntValue a) (IntValue b) = IntValue (a + b)"
| "exPlus (LongValue a) (LongValue b) = LongValue (a + b)"
| "exPlus v w = v"

fun exValueLess :: "exValue \<Rightarrow> exValue \<Rightarrow> bool" where
  "exValueLess (IntValue a) (IntValue b) = (sint a < sint b)"
| "exValueLess (IntValue a) (LongValue b) = True"
| "exValueLess (LongValue a) (IntValue b) = False"
| "exValueLess (LongValue a) (LongValue b) = (sint a < sint b)"

definition exLess ::
  "(exField, exValue) FieldValue \<Rightarrow> (exField, exValue) FieldValue \<Rightarrow> bool" where
  "exLess x y =
     (if mField x \<noteq> mField y
      then fst (mField x) < fst (mField y)
           \<or> (fst (mField x) = fst (mField y) \<and> snd (mField x) < snd (mField y))
      else exValueLess (mValue x) (mValue y))"

definition exOps :: "(exField, exValue) FieldOps" where
  "exOps = \<lparr>kAttributionField = 1,
            getPosAtDepth = (\<lambda>f d. if d = 0 then fst f else snd f),
            isAttributionUidField = (\<lambda>fv. mField fv = (1, 1) \<and> exIsInt (mValue fv)),
            fvNotEqual = (\<lambda>a b. a \<noteq> b),
            fvLess = exLess,
            typeIsINT = exIsInt,
            int_value = exIntOf,
            setInt = (\<lambda>v n. IntValue n),
            plusAssign = exPlus\<rparr>"

text \<open>
  Four atoms: 10000 is the atom of the source's comment (uid in field 1, additive fields
  3 and 4), 10001 has an attribution chain, 10002 has its additive field 2 before the
  field 3 that is not additive, 10003 has neither uid nor chain.
\<close>

definition exTables :: AtomTables where
  "exTables = \<lparr>kAllPullAtomInfo = [10000 \<mapsto> \<lparr>additiveFields = [3, 4]\<rparr>,
                                   10001 \<mapsto> \<lparr>additiveFields = [3]\<rparr>,
                                   10002 \<mapsto> \<lparr>additiveFields = [2]\<rparr>,
                                   10003 \<mapsto> \<lparr>additiveFields = []\<rparr>],
               kAtomsWithAttributionChain = {10001},
               kAtomsWithUidField = [10000 \<mapsto> 1, 10002 \<mapsto> 1]\<rparr>"

definition intField :: "int \<Rightarrow> 32 word \<Rightarrow> (exField, exValue) FieldValue" where
  "intField pos n = \<lparr>mField = (pos, 0), mValue = IntValue n\<rparr>"

definition longField :: "int \<Rightarrow> 64 word \<Rightarrow> (exField, exValue) FieldValue" where
  "longField pos n = \<lparr>mField = (pos, 0), mValue = LongValue n\<rparr>"

definition chainField :: "int \<Rightarrow> exValue \<Rightarrow> (exField, exValue) FieldValue" where
  "chainField pos v = \<lparr>mField = (1, pos), mValue = v\<rparr>"

definition exEvent ::
  "int \<Rightarrow> (exField, exValue) FieldValue list \<Rightarrow> (exField, exValue) LogEvent" where
  "exEvent tag vals = \<lparr>GetTagId = tag, getValues = vals\<rparr>"

text \<open>A uid map in which 99 is an isolated uid of host 50.\<close>

definition exHost :: "32 word \<Rightarrow> 32 word" where
  "exHost uid = (if uid = 99 then 50 else uid)"

section \<open>Properties\<close>

lemmas ex_defs =
  mapAndMergeIsolatedUidsToHostUid_def exTables_def exOps_def exEvent_def intField_def
  longField_def chainField_def exHost_def mapEvent_def mapUidField_def hostUidAt_def
  toHostUid_def mergeOnto_def sortEvents_def lessEvent_def exLess_def mergeSorted_def
  mergeLoop.simps

subsection \<open>The early returns and the loop over the events\<close>

lemma mapIsolatedUids_append:
  "mapIsolatedUids ops tables h tagId (pre @ post) =
     (case mapIsolatedUids ops tables h tagId pre of
        (Some outcome, pre') \<Rightarrow> (Some outcome, pre' @ post)
      | (None, pre') \<Rightarrow>
          (case mapIsolatedUids ops tables h tagId post of (r, post') \<Rightarrow> (r, pre' @ post')))"
  by (induction pre) (auto split: sum.splits prod.splits option.splits)

lemma mapIsolatedUids_stops:
  assumes "mapIsolatedUids ops tables h tagId pre = (None, pre')"
      and "mapEvent ops tables h tagId bad = Inl outcome"
  shows "mapIsolatedUids ops tables h tagId (pre @ bad # post) = (Some outcome, pre' @ bad # post)"
  using assms by (simp add: mapIsolatedUids_append)

lemma mapAttributionChain_span:
  "mapAttributionChain ops h vals =
     map (\<lambda>fv. if isAttributionUidField ops fv then toHostUid ops h fv else fv)
       (takeWhile (\<lambda>fv. getPosAtDepth ops (mField fv) 0 \<le> kAttributionField ops) vals)
     @ dropWhile (\<lambda>fv. getPosAtDepth ops (mField fv) 0 \<le> kAttributionField ops) vals"
  by (induction vals) auto

lemma mapIsolatedUids_chain_outcome:
  "tagId \<in> kAtomsWithAttributionChain tables \<Longrightarrow>
     fst (mapIsolatedUids ops tables h tagId data)
       = (if \<forall>e \<in> set data. GetTagId e = tagId then None else Some WrongAtom)"
  by (induction data) (auto simp: mapEvent_def split: prod.splits)

lemma mergeLoop_empty: "mergeLoop ops additive 0 [] [] = ([], [])"
  by (simp add: mergeLoop.simps)

text \<open>
  C9. For a tag id that is not a known pull atom, or that has neither a uid field nor
  an attribution chain, the call returns early and leaves the batch as it was: the
  vector after the call is the vector before it.
\<close>

theorem no_schema_batch_unchanged:
  assumes "kAllPullAtomInfo tables tagId = None
           \<or> (tagId \<notin> kAtomsWithAttributionChain tables \<and> kAtomsWithUidField tables tagId = None)"
  shows "snd (mapAndMergeIsolatedUidsToHostUid ops tables data getHostUidOrSelf tagId) = data
         \<and> fst (mapAndMergeIsolatedUidsToHostUid ops tables data getHostUidOrSelf tagId)
             \<in> {UnknownPullAtom, NoUidOrChain}"
  using assms by (auto simp: mapAndMergeIsolatedUidsToHostUid_def split: option.splits)

theorem no_schema_batch_unchanged_witness:
  "(kAllPullAtomInfo exTables 10003 = None
      \<or> (10003 \<notin> kAtomsWithAttributionChain exTables \<and> kAtomsWithUidField exTables 10003 = None))
   \<and> mapAndMergeIsolatedUidsToHostUid exOps exTables
        [exEvent 10003 [intField 1 99, intField 2 7]] exHost 10003
      = (NoUidOrChain, [exEvent 10003 [intField 1 99, intField 2 7]])"
proof -
  have h: "kAllPullAtomInfo exTables 10003 = None
      \<or> (10003 \<notin> kAtomsWithAttributionChain exTables \<and> kAtomsWithUidField exTables 10003 = None)"
    by (simp add: exTables_def)
  have e: "fst (mapAndMergeIsolatedUidsToHostUid exOps exTables
        [exEvent 10003 [intField 1 99, intField 2 7]] exHost 10003) = NoUidOrChain"
    by (simp add: ex_defs)
  from no_schema_batch_unchanged [OF h, of exOps "[exEvent 10003 [intField 1 99, intField 2 7]]" exHost] h e
  show ?thesis by (simp add: prod_eq_iff)
qed

text \<open>
  C2. On an empty batch of an atom that is a known pull atom with a uid field or an
  attribution chain, the call does not return an empty batch normally: neither loop runs,
  the sort has nothing to do, and line 164 evaluates \<open>data.back()\<close> on the empty vector.
\<close>

theorem empty_batch_reaches_back:
  assumes "kAllPullAtomInfo tables tagId = Some info"
      and "tagId \<in> kAtomsWithAttributionChain tables \<or> kAtomsWithUidField tables tagId \<noteq> None"
  shows "mapAndMergeIsolatedUidsToHostUid ops tables [] getHostUidOrSelf tagId
           = (BackOfEmptyVector, [])"
  using assms
  by (auto simp: mapAndMergeIsolatedUidsToHostUid_def sortEvents_def mergeSorted_def mergeLoop_empty)

theorem empty_batch_reaches_back_witness:
  "kAllPullAtomInfo exTables 10000 = Some \<lparr>additiveFields = [3, 4]\<rparr>
   \<and> (10000 \<in> kAtomsWithAttributionChain exTables \<or> kAtomsWithUidField exTables 10000 \<noteq> None)
   \<and> mapAndMergeIsolatedUidsToHostUid exOps exTables [] exHost 10000 = (BackOfEmptyVector, [])"
proof -
  have a: "kAllPullAtomInfo exTables 10000 = Some \<lparr>additiveFields = [3, 4]\<rparr>"
    by (simp add: exTables_def)
  have b: "10000 \<in> kAtomsWithAttributionChain exTables \<or> kAtomsWithUidField exTables 10000 \<noteq> None"
    by (simp add: exTables_def)
  from empty_batch_reaches_back [OF a b, of exOps exHost] a b show ?thesis by simp
qed

text \<open>
  C7. For an atom with an attribution chain the first loop maps each event on its own,
  up to the first event that carries another tag id: the values are scanned in order up
  to the first one whose position at depth 0 is beyond \<open>kAttributionField\<close>; in that
  span the values for which \<open>isAttributionUidField\<close> holds get the host uid of their
  \<open>int_value\<close>, and every other value, in the span or after it, stays as it is. The
  event with another tag id and the events after it stay as they are.
\<close>

theorem chain_uids_mapped_within_span:
  assumes "tagId \<in> kAtomsWithAttributionChain tables"
  shows "mapIsolatedUids ops tables getHostUidOrSelf tagId data =
          (if \<forall>e \<in> set data. GetTagId e = tagId then None else Some WrongAtom,
           map (\<lambda>e. e\<lparr>getValues :=
                  map (\<lambda>fv. if isAttributionUidField ops fv
                             then toHostUid ops getHostUidOrSelf fv else fv)
                    (takeWhile (\<lambda>fv. getPosAtDepth ops (mField fv) 0 \<le> kAttributionField ops)
                       (getValues e))
                  @ dropWhile (\<lambda>fv. getPosAtDepth ops (mField fv) 0 \<le> kAttributionField ops)
                       (getValues e)\<rparr>)
             (takeWhile (\<lambda>e. GetTagId e = tagId) data)
           @ dropWhile (\<lambda>e. GetTagId e = tagId) data)"
  using assms
  by (induction data) (auto simp: mapEvent_def mapAttributionChain_span)

text \<open>
  The witness: in the first event the uid slot of the first attribution node is mapped,
  the \<open>LONG\<close> in the uid slot of the second node is not recognised and stays, and the
  scan ends at field 2, so the uid slot after it stays as well. The second event has
  another tag id; it and the third event are not touched.
\<close>

theorem chain_uids_mapped_within_span_witness:
  "10001 \<in> kAtomsWithAttributionChain exTables
   \<and> mapIsolatedUids exOps exTables exHost 10001
        [exEvent 10001 [chainField 1 (IntValue 99), chainField 2 (IntValue 7),
                        chainField 1 (LongValue 99), intField 2 99,
                        chainField 1 (IntValue 99)],
         exEvent 10003 [chainField 1 (IntValue 99)],
         exEvent 10001 [chainField 1 (IntValue 99)]]
      = (Some WrongAtom,
         [exEvent 10001 [chainField 1 (IntValue 50), chainField 2 (IntValue 7),
                         chainField 1 (LongValue 99), intField 2 99,
                         chainField 1 (IntValue 99)],
          exEvent 10003 [chainField 1 (IntValue 99)],
          exEvent 10001 [chainField 1 (IntValue 99)]])"
proof -
  have a: "10001 \<in> kAtomsWithAttributionChain exTables"
    by (simp add: exTables_def)
  from chain_uids_mapped_within_span [OF a, of exOps exHost] a
  show ?thesis
    by (simp add: ex_defs)
qed

text \<open>
  C10. For an atom with an attribution chain the first loop returns early exactly when
  some event carries another tag id, and then as "Wrong atom"; whatever the values of
  the events are, the call never ends as "Malformed log".
\<close>

theorem chain_never_malformed:
  assumes "tagId \<in> kAtomsWithAttributionChain tables"
  shows "fst (mapIsolatedUids ops tables getHostUidOrSelf tagId data)
           = (if \<forall>e \<in> set data. GetTagId e = tagId then None else Some WrongAtom)
         \<and> fst (mapAndMergeIsolatedUidsToHostUid ops tables data getHostUidOrSelf tagId)
             \<noteq> MalformedLog"
proof
  show "fst (mapIsolatedUids ops tables getHostUidOrSelf tagId data)
           = (if \<forall>e \<in> set data. GetTagId e = tagId then None else Some WrongAtom)"
    using assms by (rule mapIsolatedUids_chain_outcome)
  then show "fst (mapAndMergeIsolatedUidsToHostUid ops tables data getHostUidOrSelf tagId)
             \<noteq> MalformedLog"
    by (auto simp: mapAndMergeIsolatedUidsToHostUid_def split: option.splits prod.splits if_splits)
qed

text \<open>
  The witness is a chain atom whose first event has a \<open>LONG\<close> in the uid slot of its
  attribution node and whose second event has no values at all.
\<close>

theorem chain_never_malformed_witness:
  "10001 \<in> kAtomsWithAttributionChain exTables
   \<and> mapAndMergeIsolatedUidsToHostUid exOps exTables
        [exEvent 10001 [chainField 1 (LongValue 99), chainField 2 (IntValue 7), intField 3 10],
         exEvent 10001 []] exHost 10001
      = (Merged, [exEvent 10001 [],
                  exEvent 10001 [chainField 1 (LongValue 99), chainField 2 (IntValue 7),
                                 intField 3 10]])
   \<and> fst (mapAndMergeIsolatedUidsToHostUid exOps exTables
        [exEvent 10001 [chainField 1 (LongValue 99), chainField 2 (IntValue 7), intField 3 10],
         exEvent 10001 []] exHost 10001) \<noteq> MalformedLog"
proof -
  have a: "10001 \<in> kAtomsWithAttributionChain exTables"
    by (simp add: exTables_def)
  have e: "mapAndMergeIsolatedUidsToHostUid exOps exTables
        [exEvent 10001 [chainField 1 (LongValue 99), chainField 2 (IntValue 7), intField 3 10],
         exEvent 10001 []] exHost 10001
      = (Merged, [exEvent 10001 [],
                  exEvent 10001 [chainField 1 (LongValue 99), chainField 2 (IntValue 7),
                                 intField 3 10]])"
    by (simp add: ex_defs)
  from chain_never_malformed [OF a] a e show ?thesis by blast
qed

lemma mapIsolatedUids_uidField:
  assumes "tagId \<notin> kAtomsWithAttributionChain tables"
      and "kAtomsWithUidField tables tagId = Some uidField"
      and "0 < uidField"
      and "\<forall>e \<in> set data. GetTagId e = tagId"
  shows "mapIsolatedUids ops tables h tagId data =
           (if \<exists>e \<in> set data. uidFieldMissing ops uidField e then Some MalformedLog else None,
            map (\<lambda>e. e\<lparr>getValues := hostUidAt ops h uidField (getValues e)\<rparr>)
              (takeWhile (\<lambda>e. \<not> uidFieldMissing ops uidField e) data)
            @ dropWhile (\<lambda>e. \<not> uidFieldMissing ops uidField e) data)"
  using assms(4)
proof (induction data)
  case Nil
  then show ?case by simp
next
  case (Cons e data)
  show ?case
  proof (cases "uidFieldMissing ops uidField e")
    case True
    then have "mapUidField ops h uidField (getValues e) = None"
      by (auto simp: mapUidField_def uidFieldMissing_def)
    then show ?thesis
      using True Cons.prems assms(1,2) by (simp add: mapEvent_def)
  next
    case False
    then have "mapUidField ops h uidField (getValues e)
                 = Some (hostUidAt ops h uidField (getValues e))"
      using assms(3) by (auto simp: mapUidField_def uidFieldMissing_def)
    then show ?thesis
      using False Cons assms(1,2) by (simp add: mapEvent_def)
  qed
qed

text \<open>
  C5. For an atom without attribution chain whose uid is the field at the 1-based
  position \<open>uidField\<close>, and a batch whose events all carry the batch's tag id: when
  some event has fewer than \<open>uidField\<close> values, or a value at that position that is not
  an \<open>INT\<close>, the call ends as "Malformed log". The events before the first such event
  have been mapped, that event and the ones after it are as they were, and the batch is
  in its old order: nothing was sorted or merged.
\<close>

theorem malformed_uid_aborts:
  assumes "kAllPullAtomInfo tables tagId = Some info"
      and "tagId \<notin> kAtomsWithAttributionChain tables"
      and "kAtomsWithUidField tables tagId = Some uidField"
      and "0 < uidField"
      and "\<forall>e \<in> set data. GetTagId e = tagId"
      and "\<exists>e \<in> set data. uidFieldMissing ops uidField e"
  shows "mapAndMergeIsolatedUidsToHostUid ops tables data getHostUidOrSelf tagId
           = (MalformedLog,
              map (\<lambda>e. e\<lparr>getValues := hostUidAt ops getHostUidOrSelf uidField (getValues e)\<rparr>)
                (takeWhile (\<lambda>e. \<not> uidFieldMissing ops uidField e) data)
              @ dropWhile (\<lambda>e. \<not> uidFieldMissing ops uidField e) data)"
  using assms(1,3,6) mapIsolatedUids_uidField [OF assms(2,3,4,5), of ops getHostUidOrSelf]
  by (simp add: mapAndMergeIsolatedUidsToHostUid_def)

text \<open>
  The witness: the second event has a \<open>LONG\<close> in field 1. The first event's isolated
  uid 99 has become 50, the third event still has 99, and the three events are in their
  old order.
\<close>

theorem malformed_uid_aborts_witness:
  "kAllPullAtomInfo exTables 10000 = Some \<lparr>additiveFields = [3, 4]\<rparr>
   \<and> 10000 \<notin> kAtomsWithAttributionChain exTables
   \<and> kAtomsWithUidField exTables 10000 = Some 1
   \<and> uidFieldMissing exOps 1 (exEvent 10000 [longField 1 99, intField 2 1])
   \<and> mapAndMergeIsolatedUidsToHostUid exOps exTables
        [exEvent 10000 [intField 1 99, intField 2 1, intField 3 100, intField 4 200],
         exEvent 10000 [longField 1 99, intField 2 1],
         exEvent 10000 [intField 1 99, intField 2 1, intField 3 100, intField 4 200]]
        exHost 10000
      = (MalformedLog,
         [exEvent 10000 [intField 1 50, intField 2 1, intField 3 100, intField 4 200],
          exEvent 10000 [longField 1 99, intField 2 1],
          exEvent 10000 [intField 1 99, intField 2 1, intField 3 100, intField 4 200]])"
proof -
  let ?data = "[exEvent 10000 [intField 1 99, intField 2 1, intField 3 100, intField 4 200],
         exEvent 10000 [longField 1 99, intField 2 1],
         exEvent 10000 [intField 1 99, intField 2 1, intField 3 100, intField 4 200]]"
  have a: "kAllPullAtomInfo exTables 10000 = Some \<lparr>additiveFields = [3, 4]\<rparr>"
    by (simp add: exTables_def)
  have b: "10000 \<notin> kAtomsWithAttributionChain exTables"
    by (simp add: exTables_def)
  have c: "kAtomsWithUidField exTables 10000 = Some 1"
    by (simp add: exTables_def)
  have d: "(0 :: int) < 1" by simp
  have e: "\<forall>e \<in> set ?data. GetTagId e = 10000"
    by (simp add: exEvent_def)
  have m: "uidFieldMissing exOps 1 (exEvent 10000 [longField 1 99, intField 2 1])"
    by (simp add: uidFieldMissing_def exOps_def exEvent_def longField_def)
  then have f: "\<exists>e \<in> set ?data. uidFieldMissing exOps 1 e"
    by simp
  have r: "mapAndMergeIsolatedUidsToHostUid exOps exTables ?data exHost 10000
      = (MalformedLog,
         [exEvent 10000 [intField 1 50, intField 2 1, intField 3 100, intField 4 200],
          exEvent 10000 [longField 1 99, intField 2 1],
          exEvent 10000 [intField 1 99, intField 2 1, intField 3 100, intField 4 200]])"
    using malformed_uid_aborts [OF a b c d e f, of exHost]
    by (simp add: uidFieldMissing_def hostUidAt_def toHostUid_def exOps_def exEvent_def
          longField_def intField_def exHost_def)
  from a b c m r show ?thesis by blast
qed

lemma mapIsolatedUids_chain:
  assumes "tagId \<in> kAtomsWithAttributionChain tables"
      and "\<forall>e \<in> set data. GetTagId e = tagId"
  shows "mapIsolatedUids ops tables h tagId data =
           (None, map (\<lambda>e. e\<lparr>getValues := mapAttributionChain ops h (getValues e)\<rparr>) data)"
  using assms(2)
  by (induction data) (simp_all add: mapEvent_def assms(1))

text \<open>
  C6, as amended. Let \<open>bad\<close> be the first event of the batch whose tag id is not the
  batch's: the events \<open>pre\<close> before it carry the batch's tag id. The call never gets
  to sorting or merging, and it ends
  \<^item> as "Wrong atom" at \<open>bad\<close> when the atom has an attribution chain, or when it has
    a uid field and no event of \<open>pre\<close> lacks its uid: the events of \<open>pre\<close> have been
    mapped, \<open>bad\<close> and the events after it are as they were;
  \<^item> as "Malformed log" at the first event of \<open>pre\<close> that lacks its uid otherwise: the
    events before that one have been mapped, the rest of the batch, \<open>bad\<close> included,
    is as it was.
\<close>

theorem wrong_tag_aborts:
  assumes "kAllPullAtomInfo tables tagId = Some info"
      and "tagId \<in> kAtomsWithAttributionChain tables
           \<or> (kAtomsWithUidField tables tagId = Some uidField \<and> 0 < uidField)"
      and "\<forall>e \<in> set pre. GetTagId e = tagId"
      and "GetTagId bad \<noteq> tagId"
  shows "mapAndMergeIsolatedUidsToHostUid ops tables (pre @ bad # post) getHostUidOrSelf tagId =
           (if tagId \<in> kAtomsWithAttributionChain tables
            then (WrongAtom,
                  map (\<lambda>e. e\<lparr>getValues :=
                         mapAttributionChain ops getHostUidOrSelf (getValues e)\<rparr>) pre
                  @ bad # post)
            else if \<forall>e \<in> set pre. \<not> uidFieldMissing ops uidField e
            then (WrongAtom,
                  map (\<lambda>e. e\<lparr>getValues :=
                         hostUidAt ops getHostUidOrSelf uidField (getValues e)\<rparr>) pre
                  @ bad # post)
            else (MalformedLog,
                  map (\<lambda>e. e\<lparr>getValues :=
                         hostUidAt ops getHostUidOrSelf uidField (getValues e)\<rparr>)
                    (takeWhile (\<lambda>e. \<not> uidFieldMissing ops uidField e) pre)
                  @ dropWhile (\<lambda>e. \<not> uidFieldMissing ops uidField e) pre
                  @ bad # post))"
proof -
  have stop: "mapEvent ops tables getHostUidOrSelf tagId bad = Inl WrongAtom"
    using assms(4) by (simp add: mapEvent_def)
  show ?thesis
  proof (cases "tagId \<in> kAtomsWithAttributionChain tables")
    case True
    have "mapIsolatedUids ops tables getHostUidOrSelf tagId (pre @ bad # post)
            = (Some WrongAtom,
               map (\<lambda>e. e\<lparr>getValues :=
                      mapAttributionChain ops getHostUidOrSelf (getValues e)\<rparr>) pre
               @ bad # post)"
      using mapIsolatedUids_chain [OF True assms(3)] stop by (rule mapIsolatedUids_stops)
    then show ?thesis
      using True assms(1) by (simp add: mapAndMergeIsolatedUidsToHostUid_def)
  next
    case False
    with assms(2) have uid: "kAtomsWithUidField tables tagId = Some uidField"
      and pos: "0 < uidField"
      by simp_all
    note loop = mapIsolatedUids_uidField [OF False uid pos assms(3), of ops getHostUidOrSelf]
    show ?thesis
    proof (cases "\<forall>e \<in> set pre. \<not> uidFieldMissing ops uidField e")
      case True
      then have tw: "takeWhile (\<lambda>e. \<not> uidFieldMissing ops uidField e) pre = pre"
        and dw: "dropWhile (\<lambda>e. \<not> uidFieldMissing ops uidField e) pre = []"
        by (simp_all add: takeWhile_eq_all_conv)
      have "mapIsolatedUids ops tables getHostUidOrSelf tagId pre
                   = (None,
                      map (\<lambda>e. e\<lparr>getValues :=
                             hostUidAt ops getHostUidOrSelf uidField (getValues e)\<rparr>) pre)"
        using loop True unfolding tw dw by simp
      then have "mapIsolatedUids ops tables getHostUidOrSelf tagId (pre @ bad # post)
            = (Some WrongAtom,
               map (\<lambda>e. e\<lparr>getValues :=
                      hostUidAt ops getHostUidOrSelf uidField (getValues e)\<rparr>) pre
               @ bad # post)"
        using stop by (rule mapIsolatedUids_stops)
      then show ?thesis
        using True False assms(1) uid by (simp add: mapAndMergeIsolatedUidsToHostUid_def)
    next
      case missing: False
      then have "mapIsolatedUids ops tables getHostUidOrSelf tagId pre
                   = (Some MalformedLog,
                      map (\<lambda>e. e\<lparr>getValues :=
                             hostUidAt ops getHostUidOrSelf uidField (getValues e)\<rparr>)
                        (takeWhile (\<lambda>e. \<not> uidFieldMissing ops uidField e) pre)
                      @ dropWhile (\<lambda>e. \<not> uidFieldMissing ops uidField e) pre)"
        using loop by simp
      then have "mapIsolatedUids ops tables getHostUidOrSelf tagId (pre @ bad # post)
                   = (Some MalformedLog,
                      map (\<lambda>e. e\<lparr>getValues :=
                             hostUidAt ops getHostUidOrSelf uidField (getValues e)\<rparr>)
                        (takeWhile (\<lambda>e. \<not> uidFieldMissing ops uidField e) pre)
                      @ dropWhile (\<lambda>e. \<not> uidFieldMissing ops uidField e) pre
                      @ bad # post)"
        by (simp add: mapIsolatedUids_append)
      then show ?thesis
        using missing False assms(1) uid by (simp add: mapAndMergeIsolatedUidsToHostUid_def)
    qed
  qed
qed

text \<open>
  The witness runs both outcomes on atom 10000, whose uid is field 1. In the first batch
  the event before the one of atom 10003 has its uid, and its isolated uid 99 has become
  50. In the second batch that event has a \<open>LONG\<close> in field 1, and the call ends there.
\<close>

theorem wrong_tag_aborts_witness:
  "kAllPullAtomInfo exTables 10000 = Some \<lparr>additiveFields = [3, 4]\<rparr>
   \<and> kAtomsWithUidField exTables 10000 = Some 1
   \<and> GetTagId (exEvent 10003 [intField 1 99, intField 2 1]) \<noteq> 10000
   \<and> mapAndMergeIsolatedUidsToHostUid exOps exTables
        ([exEvent 10000 [intField 1 99, intField 2 1, intField 3 100, intField 4 200]]
         @ exEvent 10003 [intField 1 99, intField 2 1]
         # [exEvent 10000 [intField 1 99, intField 2 1, intField 3 100, intField 4 200]])
        exHost 10000
      = (WrongAtom,
         [exEvent 10000 [intField 1 50, intField 2 1, intField 3 100, intField 4 200],
          exEvent 10003 [intField 1 99, intField 2 1],
          exEvent 10000 [intField 1 99, intField 2 1, intField 3 100, intField 4 200]])
   \<and> mapAndMergeIsolatedUidsToHostUid exOps exTables
        ([exEvent 10000 [longField 1 99, intField 2 1]]
         @ exEvent 10003 [intField 1 99, intField 2 1]
         # [exEvent 10000 [intField 1 99, intField 2 1, intField 3 100, intField 4 200]])
        exHost 10000
      = (MalformedLog,
         [exEvent 10000 [longField 1 99, intField 2 1],
          exEvent 10003 [intField 1 99, intField 2 1],
          exEvent 10000 [intField 1 99, intField 2 1, intField 3 100, intField 4 200]])"
proof -
  let ?good = "exEvent 10000 [intField 1 99, intField 2 1, intField 3 100, intField 4 200]"
  let ?long = "exEvent 10000 [longField 1 99, intField 2 1]"
  let ?bad = "exEvent 10003 [intField 1 99, intField 2 1]"
  have a: "kAllPullAtomInfo exTables 10000 = Some \<lparr>additiveFields = [3, 4]\<rparr>"
    by (simp add: exTables_def)
  have u: "kAtomsWithUidField exTables 10000 = Some 1"
    by (simp add: exTables_def)
  have b: "10000 \<in> kAtomsWithAttributionChain exTables
           \<or> (kAtomsWithUidField exTables 10000 = Some 1 \<and> (0 :: int) < 1)"
    by (simp add: exTables_def)
  have c1: "\<forall>e \<in> set [?good]. GetTagId e = 10000"
    by (simp add: exEvent_def)
  have c2: "\<forall>e \<in> set [?long]. GetTagId e = 10000"
    by (simp add: exEvent_def)
  have d: "GetTagId ?bad \<noteq> 10000"
    by (simp add: exEvent_def)
  have r1: "mapAndMergeIsolatedUidsToHostUid exOps exTables ([?good] @ ?bad # [?good]) exHost 10000
              = (WrongAtom,
                 [exEvent 10000 [intField 1 50, intField 2 1, intField 3 100, intField 4 200],
                  ?bad, ?good])"
    using wrong_tag_aborts [OF a b c1 d, of exOps "[?good]" exHost]
    by (simp add: uidFieldMissing_def hostUidAt_def toHostUid_def exOps_def exEvent_def
          exTables_def intField_def exHost_def)
  have r2: "mapAndMergeIsolatedUidsToHostUid exOps exTables ([?long] @ ?bad # [?good]) exHost 10000
              = (MalformedLog, [?long, ?bad, ?good])"
    using wrong_tag_aborts [OF a b c2 d, of exOps "[?good]" exHost]
    by (simp add: uidFieldMissing_def hostUidAt_def toHostUid_def exOps_def exEvent_def
          exTables_def longField_def intField_def exHost_def)
  from a u d r1 r2 show ?thesis by blast
qed

text \<open>
  As the claim is worded it fails in two ways. Atom 10000 has its uid in field 1. In
  the first batch the first event carries the batch's tag id and has no values, the
  second event is of atom 10003: the call ends at the first event as "Malformed log",
  not at the second as "Wrong atom". Atom 10003 has neither uid field nor chain: the
  call for it returns before the loop and never looks at the tag id of an event.
\<close>

theorem wrong_tag_counterexample:
  "GetTagId (exEvent 10003 [intField 1 99, intField 2 1]) \<noteq> 10000
   \<and> mapAndMergeIsolatedUidsToHostUid exOps exTables
        [exEvent 10000 [], exEvent 10003 [intField 1 99, intField 2 1]] exHost 10000
      = (MalformedLog, [exEvent 10000 [], exEvent 10003 [intField 1 99, intField 2 1]])
   \<and> GetTagId (exEvent 10000 [intField 1 99, intField 2 1]) \<noteq> 10003
   \<and> mapAndMergeIsolatedUidsToHostUid exOps exTables
        [exEvent 10000 [intField 1 99, intField 2 1]] exHost 10003
      = (NoUidOrChain, [exEvent 10000 [intField 1 99, intField 2 1]])"
  by (simp add: ex_defs)

subsection \<open>The merge loop\<close>

lemma needMerge_iff:
  "length l = length r \<Longrightarrow>
     needMerge ops additive l r =
       (\<forall>p < length l. fvNotEqual ops (l ! p) (r ! p)
                        \<longrightarrow> getPosAtDepth ops (mField (l ! p)) 0 \<in> additive)"
proof (induction l r rule: list_induct2)
  case Nil
  then show ?case by simp
next
  case (Cons x xs y ys)
  show ?case
    by (simp add: Cons.IH All_less_Suc2)
qed

lemma mergeEligible_list_all2:
  "mergeEligible ops additive lhs rhs =
     (length (getValues lhs) = length (getValues rhs)
      \<and> list_all2 (\<lambda>l r. fvNotEqual ops l r
                          \<longrightarrow> getPosAtDepth ops (mField l) 0 \<in> additive
                              \<and> getPosAtDepth ops (mField r) 0 \<in> additive)
           (getValues lhs) (getValues rhs))"
  by (auto simp: mergeEligible_def list_all2_conv_all_nth)

lemma positions_nth:
  assumes "positions ops a = positions ops b" and "p < length (getValues a)"
  shows "getPosAtDepth ops (mField (getValues a ! p)) 0
           = getPosAtDepth ops (mField (getValues b ! p)) 0"
proof -
  have len: "length (getValues a) = length (getValues b)"
    using assms(1) by (metis length_map positions_def)
  have "positions ops a ! p = positions ops b ! p"
    using assms(1) by simp
  then show ?thesis
    using assms(2) len by (simp add: positions_def)
qed

lemma needMerge_mergeEligible:
  assumes "length (getValues lhs) = length (getValues rhs)
           \<longrightarrow> positions ops lhs = positions ops rhs"
  shows "mergeEligible ops additive lhs rhs =
           (length (getValues lhs) = length (getValues rhs)
            \<and> needMerge ops additive (getValues lhs) (getValues rhs))"
proof (cases "length (getValues lhs) = length (getValues rhs)")
  case True
  then have "positions ops lhs = positions ops rhs"
    using assms by simp
  then have "getPosAtDepth ops (mField (getValues lhs ! p)) 0
               = getPosAtDepth ops (mField (getValues rhs ! p)) 0"
    if "p < length (getValues lhs)" for p
    using that by (rule positions_nth)
  then show ?thesis
    using True by (auto simp: mergeEligible_def needMerge_iff)
next
  case False
  then show ?thesis
    by (simp add: mergeEligible_def)
qed

lemma mergeLoop_length:
  "length (fst (mergeLoop ops additive i data mergedData)) = length data"
proof (induction ops additive i data mergedData rule: mergeLoop.induct)
  case (1 ops additive i data mergedData)
  then show ?case
    by (subst mergeLoop.simps) auto
qed

lemma mergeLoop_mergeRuns:
  "i < length data \<Longrightarrow>
     snd (mergeLoop ops additive i data mergedData)
       @ [last (fst (mergeLoop ops additive i data mergedData))]
     = mergedData @ mergeRuns ops additive (drop i data)"
proof (induction ops additive i data mergedData rule: mergeLoop.induct)
  case (1 ops additive i data mergedData)
  show ?case
  proof (cases "i + 1 < length data")
    case False
    with "1.prems" have len: "length data = Suc i" by simp
    have "drop i data = data ! i # drop (Suc i) data"
      using "1.prems" by (simp add: Cons_nth_drop_Suc)
    then have "drop i data = [data ! i]"
      using len by simp
    moreover have "data \<noteq> []"
      using len by auto
    then have "last data = data ! i"
      using len by (simp add: last_conv_nth)
    moreover have "mergeLoop ops additive i data mergedData = (data, mergedData)"
      using False by (subst mergeLoop.simps) simp
    ultimately show ?thesis by simp
  next
    case True
    then have cond: "int i < int (length data) - 1" by simp
    have d1: "drop (Suc i) data = data ! Suc i # drop (Suc (Suc i)) data"
      using True Cons_nth_drop_Suc [of "Suc i" data] by simp
    have d: "drop i data = data ! i # data ! Suc i # drop (Suc (Suc i)) data"
      using True d1 Cons_nth_drop_Suc [of i data] by simp
    show ?thesis
    proof (cases "length (getValues (data ! i)) = length (getValues (data ! (i + 1)))
                  \<and> needMerge ops additive (getValues (data ! i)) (getValues (data ! (i + 1)))")
      case False
      then have "mergeLoop ops additive i data mergedData
                   = mergeLoop ops additive (i + 1) data (mergedData @ [data ! i])"
        using cond by (subst mergeLoop.simps) auto
      moreover have "snd (mergeLoop ops additive (i + 1) data (mergedData @ [data ! i]))
          @ [last (fst (mergeLoop ops additive (i + 1) data (mergedData @ [data ! i])))]
          = (mergedData @ [data ! i]) @ mergeRuns ops additive (drop (i + 1) data)"
        using False cond True "1.IH"(1,2) by auto
      ultimately show ?thesis
        using False by (auto simp: d d1)
    next
      case merge: True
      let ?data' = "data[i + 1 := mergeOnto ops additive (data ! i) (data ! (i + 1))]"
      have "mergeLoop ops additive i data mergedData
                   = mergeLoop ops additive (i + 1) ?data' mergedData"
        using cond merge by (subst mergeLoop.simps) auto
      moreover have "snd (mergeLoop ops additive (i + 1) ?data' mergedData)
          @ [last (fst (mergeLoop ops additive (i + 1) ?data' mergedData))]
          = mergedData @ mergeRuns ops additive (drop (i + 1) ?data')"
        using merge cond True "1.IH"(3) by auto
      moreover have "drop (Suc i) ?data'
          = mergeOnto ops additive (data ! i) (data ! Suc i) # drop (Suc (Suc i)) data"
        using True Cons_nth_drop_Suc [of "Suc i" ?data'] by simp
      ultimately show ?thesis
        using merge by (auto simp: d)
    qed
  qed
qed

lemma mergeSorted_mergeRuns:
  "mergeSorted ops additive data = (if data = [] then None else Some (mergeRuns ops additive data))"
proof (cases "data = []")
  case True
  then show ?thesis by (simp add: mergeSorted_def mergeLoop.simps)
next
  case False
  obtain data' mergedData where loop: "mergeLoop ops additive 0 data [] = (data', mergedData)"
    by (cases "mergeLoop ops additive 0 data []")
  have "data' \<noteq> []"
    using False loop mergeLoop_length [of ops additive 0 data "[]"] by auto
  moreover have "mergedData @ [last data'] = mergeRuns ops additive data"
    using False loop mergeLoop_mergeRuns [of 0 data ops additive "[]"] by simp
  ultimately show ?thesis
    using False loop by (simp add: mergeSorted_def)
qed

text \<open>
  C3, as amended. Take the merge pass at an index \<open>i\<close> that has a right neighbour,
  with \<open>mergedData\<close> as the rounds before have left it, and let the two events carry
  the same fields index by index whenever they have the same number of values (the
  source asks for this: "All fields should be present"). The result of the pass is
  \<open>mergedData\<close> after the loop and the \<open>push_back\<close> of the last element.
  \<^item> If the two events are merge-eligible, they are merged: the left event is not
    appended, and what follows \<open>mergedData\<close> in the result is the result of the pass
    over the right event with the left one added onto it and the events after it.
  \<^item> If they are not, the left event is appended as it stands: what follows
    \<open>mergedData\<close> in the result is the left event and then the result of the pass
    over the events from the right one on.
\<close>

theorem adjacent_pair_merged_iff_eligible:
  assumes "i + 1 < length data"
      and "length (getValues (data ! i)) = length (getValues (data ! (i + 1)))
           \<longrightarrow> positions ops (data ! i) = positions ops (data ! (i + 1))"
  shows "Some (snd (mergeLoop ops additive i data mergedData)
               @ [last (fst (mergeLoop ops additive i data mergedData))])
           = (if mergeEligible ops additive (data ! i) (data ! (i + 1))
              then map_option (\<lambda>rest. mergedData @ rest)
                     (mergeSorted ops additive
                        (mergeOnto ops additive (data ! i) (data ! (i + 1)) # drop (i + 2) data))
              else map_option (\<lambda>rest. mergedData @ data ! i # rest)
                     (mergeSorted ops additive (drop (i + 1) data)))"
proof -
  have i: "i < length data"
    using assms(1) by simp
  have d1: "drop (i + 1) data = data ! (i + 1) # drop (i + 2) data"
    using assms(1) Cons_nth_drop_Suc [of "i + 1" data] by simp
  have d: "drop i data = data ! i # data ! (i + 1) # drop (i + 2) data"
    using i d1 Cons_nth_drop_Suc [of i data] by simp
  have out: "snd (mergeLoop ops additive i data mergedData)
               @ [last (fst (mergeLoop ops additive i data mergedData))]
             = mergedData @ mergeRuns ops additive (drop i data)"
    using i by (rule mergeLoop_mergeRuns)
  have el: "mergeEligible ops additive (data ! i) (data ! (i + 1))
              = (length (getValues (data ! i)) = length (getValues (data ! (i + 1)))
                 \<and> needMerge ops additive (getValues (data ! i)) (getValues (data ! (i + 1))))"
    using assms(2) by (rule needMerge_mergeEligible)
  show ?thesis
  proof (cases "mergeEligible ops additive (data ! i) (data ! (i + 1))")
    case True
    then have "mergeRuns ops additive (drop i data)
                 = mergeRuns ops additive
                     (mergeOnto ops additive (data ! i) (data ! (i + 1)) # drop (i + 2) data)"
      using el by (simp add: d)
    then show ?thesis
      using True out by (simp add: mergeSorted_mergeRuns)
  next
    case False
    then have "\<not> (length (getValues (data ! i)) = length (getValues (data ! (i + 1)))
                 \<and> needMerge ops additive (getValues (data ! i)) (getValues (data ! (i + 1))))"
      using el by simp
    then have "mergeRuns ops additive (drop i data)
                 = data ! i # mergeRuns ops additive (drop (i + 1) data)"
      unfolding d d1 by (subst mergeRuns.simps(1)) (rule if_not_P)
    moreover have "drop (i + 1) data \<noteq> []"
      unfolding d1 by simp
    ultimately show ?thesis
      using False out by (simp add: mergeSorted_mergeRuns)
  qed
qed

text \<open>
  The witness takes the batch of the source's comment after sorting. At index 0 the two
  events differ in fields 3 and 4 only and are merged; at index 1, with the sum in
  place, the events differ in field 2 and the left one is appended.
\<close>

theorem adjacent_pair_merged_iff_eligible_witness:
  "0 + 1 < length [exEvent 10000 [intField 1 50, intField 2 1, intField 3 100, intField 4 200],
                   exEvent 10000 [intField 1 50, intField 2 1, intField 3 110, intField 4 220],
                   exEvent 10000 [intField 1 50, intField 2 2, intField 3 100, intField 4 200]]
   \<and> positions exOps
        (exEvent 10000 [intField 1 50, intField 2 1, intField 3 100, intField 4 200])
      = positions exOps
          (exEvent 10000 [intField 1 50, intField 2 1, intField 3 110, intField 4 220])
   \<and> mergeEligible exOps {3, 4}
        (exEvent 10000 [intField 1 50, intField 2 1, intField 3 100, intField 4 200])
        (exEvent 10000 [intField 1 50, intField 2 1, intField 3 110, intField 4 220])
   \<and> Some (snd (mergeLoop exOps {3, 4} 0
                  [exEvent 10000 [intField 1 50, intField 2 1, intField 3 100, intField 4 200],
                   exEvent 10000 [intField 1 50, intField 2 1, intField 3 110, intField 4 220],
                   exEvent 10000 [intField 1 50, intField 2 2, intField 3 100, intField 4 200]]
                  [])
            @ [last (fst (mergeLoop exOps {3, 4} 0
                  [exEvent 10000 [intField 1 50, intField 2 1, intField 3 100, intField 4 200],
                   exEvent 10000 [intField 1 50, intField 2 1, intField 3 110, intField 4 220],
                   exEvent 10000 [intField 1 50, intField 2 2, intField 3 100, intField 4 200]]
                  []))])
      = Some [exEvent 10000 [intField 1 50, intField 2 1, intField 3 210, intField 4 420],
              exEvent 10000 [intField 1 50, intField 2 2, intField 3 100, intField 4 200]]
   \<and> \<not> mergeEligible exOps {3, 4}
        (exEvent 10000 [intField 1 50, intField 2 1, intField 3 210, intField 4 420])
        (exEvent 10000 [intField 1 50, intField 2 2, intField 3 100, intField 4 200])
   \<and> Some (snd (mergeLoop exOps {3, 4} 1
                  [exEvent 10000 [intField 1 50, intField 2 1, intField 3 100, intField 4 200],
                   exEvent 10000 [intField 1 50, intField 2 1, intField 3 210, intField 4 420],
                   exEvent 10000 [intField 1 50, intField 2 2, intField 3 100, intField 4 200]]
                  [])
            @ [last (fst (mergeLoop exOps {3, 4} 1
                  [exEvent 10000 [intField 1 50, intField 2 1, intField 3 100, intField 4 200],
                   exEvent 10000 [intField 1 50, intField 2 1, intField 3 210, intField 4 420],
                   exEvent 10000 [intField 1 50, intField 2 2, intField 3 100, intField 4 200]]
                  []))])
      = Some [exEvent 10000 [intField 1 50, intField 2 1, intField 3 210, intField 4 420],
              exEvent 10000 [intField 1 50, intField 2 2, intField 3 100, intField 4 200]]"
proof -
  let ?e1 = "exEvent 10000 [intField 1 50, intField 2 1, intField 3 100, intField 4 200]"
  let ?e2 = "exEvent 10000 [intField 1 50, intField 2 1, intField 3 110, intField 4 220]"
  let ?e12 = "exEvent 10000 [intField 1 50, intField 2 1, intField 3 210, intField 4 420]"
  let ?e3 = "exEvent 10000 [intField 1 50, intField 2 2, intField 3 100, intField 4 200]"
  have l0: "0 + 1 < length [?e1, ?e2, ?e3]" by simp
  have l1: "1 + 1 < length [?e1, ?e12, ?e3]" by simp
  have p0: "positions exOps ?e1 = positions exOps ?e2"
    by (simp add: positions_def exEvent_def intField_def exOps_def)
  have p1: "positions exOps ?e12 = positions exOps ?e3"
    by (simp add: positions_def exEvent_def intField_def exOps_def)
  have h0: "length (getValues ([?e1, ?e2, ?e3] ! 0)) = length (getValues ([?e1, ?e2, ?e3] ! (0 + 1)))
            \<longrightarrow> positions exOps ([?e1, ?e2, ?e3] ! 0) = positions exOps ([?e1, ?e2, ?e3] ! (0 + 1))"
    using p0 by simp
  have h1: "length (getValues ([?e1, ?e12, ?e3] ! 1)) = length (getValues ([?e1, ?e12, ?e3] ! (1 + 1)))
            \<longrightarrow> positions exOps ([?e1, ?e12, ?e3] ! 1) = positions exOps ([?e1, ?e12, ?e3] ! (1 + 1))"
    using p1 by (simp add: numeral_2_eq_2)
  have el0: "mergeEligible exOps {3, 4} ?e1 ?e2"
    by (simp add: mergeEligible_list_all2 exEvent_def intField_def exOps_def)
  have el1: "\<not> mergeEligible exOps {3, 4} ?e12 ?e3"
    by (simp add: mergeEligible_list_all2 exEvent_def intField_def exOps_def)
  have m0: "mergeSorted exOps {3, 4}
              (mergeOnto exOps {3, 4} ([?e1, ?e2, ?e3] ! 0) ([?e1, ?e2, ?e3] ! (0 + 1))
               # drop (0 + 2) [?e1, ?e2, ?e3])
            = Some [?e12, ?e3]"
    by (simp add: ex_defs)
  have m1: "mergeSorted exOps {3, 4} (drop (1 + 1) [?e1, ?e12, ?e3]) = Some [?e3]"
    by (simp add: ex_defs numeral_2_eq_2)
  have r0: "Some (snd (mergeLoop exOps {3, 4} 0 [?e1, ?e2, ?e3] [])
                  @ [last (fst (mergeLoop exOps {3, 4} 0 [?e1, ?e2, ?e3] []))])
              = Some [?e12, ?e3]"
    using adjacent_pair_merged_iff_eligible [OF l0 h0, of "{3, 4}" "[]"] el0 m0
    by simp
  have r1: "Some (snd (mergeLoop exOps {3, 4} 1 [?e1, ?e12, ?e3] [])
                  @ [last (fst (mergeLoop exOps {3, 4} 1 [?e1, ?e12, ?e3] []))])
              = Some [?e12, ?e3]"
    using adjacent_pair_merged_iff_eligible [OF l1 h1, of "{3, 4}" "[]"] el1 m1
    by (simp add: numeral_2_eq_2)
  from l0 p0 el0 r0 el1 r1 show ?thesis by blast
qed

text \<open>
  Without "the same fields index by index" the claim fails. Two events of atom 10000
  (additive fields 3 and 4) have two values each: field 1 and field 3 in the first,
  field 1 and field 5 in the second. The batch is sorted. The events differ at field 5,
  which is not additive, so they are not merge-eligible; the loop looks at the left
  field only, merges them, and the left event is not in the result.
\<close>

theorem merged_though_not_eligible_counterexample:
  "sortEvents exOps
     [exEvent 10000 [intField 1 50, intField 3 10],
      exEvent 10000 [intField 1 50, intField 5 7]]
     = [exEvent 10000 [intField 1 50, intField 3 10],
        exEvent 10000 [intField 1 50, intField 5 7]]
   \<and> \<not> mergeEligible exOps {3, 4}
          (exEvent 10000 [intField 1 50, intField 3 10])
          (exEvent 10000 [intField 1 50, intField 5 7])
   \<and> mergeSorted exOps {3, 4}
        [exEvent 10000 [intField 1 50, intField 3 10],
         exEvent 10000 [intField 1 50, intField 5 7]]
      = Some [exEvent 10000 [intField 1 50, intField 5 17]]
   \<and> mapAndMergeIsolatedUidsToHostUid exOps exTables
        [exEvent 10000 [intField 1 50, intField 3 10],
         exEvent 10000 [intField 1 50, intField 5 7]] exHost 10000
      = (Merged, [exEvent 10000 [intField 1 50, intField 5 17]])"
proof -
  let ?a = "exEvent 10000 [intField 1 50, intField 3 10]"
  let ?b = "exEvent 10000 [intField 1 50, intField 5 7]"
  have s: "sortEvents exOps [?a, ?b] = [?a, ?b]"
    by (simp add: ex_defs)
  have n: "\<not> mergeEligible exOps {3, 4} ?a ?b"
    by (simp add: mergeEligible_list_all2 exEvent_def intField_def exOps_def)
  have m: "mergeSorted exOps {3, 4} [?a, ?b] = Some [exEvent 10000 [intField 1 50, intField 5 17]]"
    by (simp add: ex_defs)
  have r: "mapAndMergeIsolatedUidsToHostUid exOps exTables [?a, ?b] exHost 10000
             = (Merged, [exEvent 10000 [intField 1 50, intField 5 17]])"
    by (simp add: ex_defs)
  from s n m r show ?thesis by blast
qed

subsection \<open>The comparison\<close>

lemma lessValues_lexord:
  assumes "fieldValuesOrdered ops" and "length xs = length ys"
  shows "lessValues ops xs ys = ((xs, ys) \<in> lexord {(x, y). fvLess ops x y})"
  using assms(2)
proof (induction xs ys rule: list_induct2)
  case Nil
  then show ?case by simp
next
  case (Cons x xs y ys)
  then show ?case
    using assms(1) by (auto simp: fieldValuesOrdered_def)
qed

lemma lessEvent_recordOrder:
  "fieldValuesOrdered ops \<Longrightarrow> lessEvent ops a b = recordOrder ops a b"
  by (auto simp: lessEvent_def recordOrder_def lessValues_lexord)

lemma fvLess_trans: "fieldValuesOrdered ops \<Longrightarrow> trans {(x, y). fvLess ops x y}"
  unfolding fieldValuesOrdered_def trans_def by blast

lemma recordOrder_irrefl: "fieldValuesOrdered ops \<Longrightarrow> \<not> recordOrder ops a a"
  by (simp add: recordOrder_def fieldValuesOrdered_def lexord_irreflexive)

lemma recordOrder_trans:
  assumes "fieldValuesOrdered ops" "recordOrder ops a b" "recordOrder ops b c"
  shows "recordOrder ops a c"
proof -
  have t: "\<And>x y z. (x, y) \<in> lexord {(x, y). fvLess ops x y}
             \<Longrightarrow> (y, z) \<in> lexord {(x, y). fvLess ops x y}
             \<Longrightarrow> (x, z) \<in> lexord {(x, y). fvLess ops x y}"
    using fvLess_trans [OF assms(1)] by (rule lexord_trans [rotated 2])
  show ?thesis
    using assms(2,3) unfolding recordOrder_def
    by (elim disjE conjE) (auto dest: t)
qed

lemma recordOrder_total:
  assumes "fieldValuesOrdered ops"
  shows "recordOrder ops a b \<or> getValues a = getValues b \<or> recordOrder ops b a"
proof -
  have "\<forall>x y. (x, y) \<in> {(x, y). fvLess ops x y} \<or> x = y \<or> (y, x) \<in> {(x, y). fvLess ops x y}"
    using assms by (auto simp: fieldValuesOrdered_def)
  from lexord_linear [OF this, of "getValues a" "getValues b"]
  show ?thesis
    unfolding recordOrder_def by (cases "length (getValues a)" "length (getValues b)" rule: linorder_cases) auto
qed

text \<open>
  C8. Where \<open>!=\<close> on \<open>FieldValue\<close> is inequality and \<open><\<close> a strict total order, the
  comparison handed to \<open>sort\<close> is the record order: fewer values first, then the
  lexicographic order of the value vectors. It is irreflexive and transitive, and two
  events are equivalent under it exactly when their value vectors are equal, so it is a
  strict weak ordering.
\<close>

theorem comparison_is_record_order:
  assumes "fieldValuesOrdered ops"
  shows "lessEvent ops a b = recordOrder ops a b
         \<and> \<not> lessEvent ops a a
         \<and> (lessEvent ops a b \<and> lessEvent ops b c \<longrightarrow> lessEvent ops a c)
         \<and> ((\<not> lessEvent ops a b \<and> \<not> lessEvent ops b a) = (getValues a = getValues b))"
proof -
  have eq: "\<And>x y. lessEvent ops x y = recordOrder ops x y"
    using assms by (rule lessEvent_recordOrder)
  have "(\<not> recordOrder ops a b \<and> \<not> recordOrder ops b a) = (getValues a = getValues b)"
  proof
    assume "\<not> recordOrder ops a b \<and> \<not> recordOrder ops b a"
    then show "getValues a = getValues b"
      using recordOrder_total [OF assms, of a b] by blast
  next
    assume "getValues a = getValues b"
    then show "\<not> recordOrder ops a b \<and> \<not> recordOrder ops b a"
      using assms by (simp add: recordOrder_def fieldValuesOrdered_def lexord_irreflexive)
  qed
  then show ?thesis
    using recordOrder_irrefl [OF assms] recordOrder_trans [OF assms] by (auto simp: eq)
qed

lemma exValueLess_irrefl: "\<not> exValueLess v v"
  by (cases v) auto

lemma exValueLess_trans: "exValueLess u v \<Longrightarrow> exValueLess v w \<Longrightarrow> exValueLess u w"
  by (cases u; cases v; cases w) auto

lemma sint_less_cases: "a \<noteq> b \<Longrightarrow> sint a < sint b \<or> sint b < sint a"
proof -
  assume "a \<noteq> b"
  moreover have "sint a = sint b \<Longrightarrow> a = b"
    by (rule signed_word_eqI)
  ultimately have "sint a \<noteq> sint b" by blast
  then show ?thesis by linarith
qed

lemma exValueLess_total: "u \<noteq> v \<Longrightarrow> exValueLess u v \<or> exValueLess v u"
  by (cases u; cases v) (auto dest: sint_less_cases)

lemma exOps_ordered: "fieldValuesOrdered exOps"
  unfolding fieldValuesOrdered_def
proof (intro conjI allI impI)
  fix x y z :: "(exField, exValue) FieldValue"
  show "fvNotEqual exOps x y = (x \<noteq> y)" by (simp add: exOps_def)
  show "\<not> fvLess exOps x x" by (simp add: exOps_def exLess_def exValueLess_irrefl)
  show "fvLess exOps x y \<or> fvLess exOps y x" if "x \<noteq> y"
  proof (cases "mField x = mField y")
    case True
    with that have "mValue x \<noteq> mValue y"
      by (cases x; cases y) auto
    then show ?thesis
      using True exValueLess_total by (auto simp: exOps_def exLess_def)
  next
    case False
    then show ?thesis
      by (auto simp: exOps_def exLess_def prod_eq_iff)
  qed
  show "fvLess exOps x z" if "fvLess exOps x y" "fvLess exOps y z"
    using that exValueLess_trans [of "mValue x" "mValue y" "mValue z"]
    by (auto simp: exOps_def exLess_def prod_eq_iff split: if_splits)
qed

theorem comparison_is_record_order_witness:
  "fieldValuesOrdered exOps
   \<and> lessEvent exOps (exEvent 10000 [intField 1 50, intField 2 7])
                     (exEvent 10000 [intField 1 50, intField 2 9])
   \<and> recordOrder exOps (exEvent 10000 [intField 1 50, intField 2 7])
                       (exEvent 10000 [intField 1 50, intField 2 9])
   \<and> \<not> lessEvent exOps (exEvent 10000 [intField 1 50, intField 2 9])
                       (exEvent 10000 [intField 1 50, intField 2 7])
   \<and> lessEvent exOps (exEvent 10000 [intField 1 50, intField 2 9])
                     (exEvent 10000 [intField 1 2, intField 2 1, intField 3 0])
   \<and> lessEvent exOps (exEvent 10000 [intField 1 50, intField 2 7])
                     (exEvent 10000 [intField 1 2, intField 2 1, intField 3 0])"
proof -
  let ?a = "exEvent 10000 [intField 1 50, intField 2 7]"
  let ?b = "exEvent 10000 [intField 1 50, intField 2 9]"
  let ?c = "exEvent 10000 [intField 1 2, intField 2 1, intField 3 0]"
  have ab: "lessEvent exOps ?a ?b"
    by (simp add: lessEvent_def exEvent_def intField_def exOps_def exLess_def)
  have bc: "lessEvent exOps ?b ?c"
    by (simp add: lessEvent_def exEvent_def intField_def exOps_def exLess_def)
  have ba: "\<not> lessEvent exOps ?b ?a"
    by (simp add: lessEvent_def exEvent_def intField_def exOps_def exLess_def)
  from comparison_is_record_order [OF exOps_ordered, of ?a ?b ?c] ab bc ba exOps_ordered
  show ?thesis by blast
qed

subsection \<open>Sorting permutes\<close>

lemma mset_insertEvent: "mset (insertEvent ops e xs) = add_mset e (mset xs)"
  by (induction xs) auto

lemma mset_sortEvents: "mset (sortEvents ops data) = mset data"
  by (induction data) (auto simp: sortEvents_def mset_insertEvent)

lemma set_sortEvents: "set (sortEvents ops data) = set data"
  using mset_sortEvents [of ops data] by (metis set_mset_mset)

lemma fieldTotal_mset:
  "mset xs = mset ys \<Longrightarrow> fieldTotal ops num pos xs = fieldTotal ops num pos ys"
proof -
  assume "mset xs = mset ys"
  then have "mset (map (eventTotal ops num pos) xs) = mset (map (eventTotal ops num pos) ys)"
    by (metis mset_map)
  then show ?thesis
    unfolding fieldTotal_def by (metis sum_mset_sum_list)
qed

subsection \<open>Adding one event onto another\<close>

lemma addOnto_length [simp]:
  "length (addOnto ops additive l r) = length r"
  by (induction ops additive l r rule: addOnto.induct) auto

lemma addOnto_positions:
  "map (\<lambda>fv. getPosAtDepth ops (mField fv) 0) (addOnto ops additive l r)
     = map (\<lambda>fv. getPosAtDepth ops (mField fv) 0) r"
  by (induction ops additive l r rule: addOnto.induct) auto

lemma mergeOnto_positions [simp]:
  "positions ops (mergeOnto ops additive a b) = positions ops b"
  by (simp add: positions_def mergeOnto_def addOnto_positions)

lemma mergeOnto_length [simp]:
  "length (getValues (mergeOnto ops additive a b)) = length (getValues b)"
  by (simp add: mergeOnto_def)

lemma addOnto_total:
  assumes "plusAssignAdds ops summable num" and "pos \<in> additive"
      and "map (\<lambda>fv. getPosAtDepth ops (mField fv) 0) l = map (\<lambda>fv. getPosAtDepth ops (mField fv) 0) r"
      and "\<forall>fv \<in> set l. getPosAtDepth ops (mField fv) 0 \<in> additive \<longrightarrow> summable (mValue fv)"
      and "\<forall>fv \<in> set r. getPosAtDepth ops (mField fv) 0 \<in> additive \<longrightarrow> summable (mValue fv)"
  shows "sum_list (map (\<lambda>fv. num (mValue fv))
            (filter (\<lambda>fv. getPosAtDepth ops (mField fv) 0 = pos) (addOnto ops additive l r)))
         = sum_list (map (\<lambda>fv. num (mValue fv))
            (filter (\<lambda>fv. getPosAtDepth ops (mField fv) 0 = pos) l))
           + sum_list (map (\<lambda>fv. num (mValue fv))
            (filter (\<lambda>fv. getPosAtDepth ops (mField fv) 0 = pos) r))"
  using assms(3,4,5)
proof (induction l arbitrary: r)
  case Nil
  then show ?case by simp
next
  case (Cons x l)
  then obtain y r' where r: "r = y # r'"
    by (cases r) auto
  show ?case
    using Cons.prems Cons.IH [of r'] assms(1,2)
    by (auto simp: r plusAssignAdds_def add_ac)
qed

lemma addOnto_summable:
  assumes "plusAssignAdds ops summable num"
      and "map (\<lambda>fv. getPosAtDepth ops (mField fv) 0) l = map (\<lambda>fv. getPosAtDepth ops (mField fv) 0) r"
      and "\<forall>fv \<in> set l. getPosAtDepth ops (mField fv) 0 \<in> additive \<longrightarrow> summable (mValue fv)"
      and "\<forall>fv \<in> set r. getPosAtDepth ops (mField fv) 0 \<in> additive \<longrightarrow> summable (mValue fv)"
  shows "\<forall>fv \<in> set (addOnto ops additive l r).
           getPosAtDepth ops (mField fv) 0 \<in> additive \<longrightarrow> summable (mValue fv)"
  using assms(2,3,4)
proof (induction l arbitrary: r)
  case Nil
  then show ?case by simp
next
  case (Cons x l)
  then obtain y r' where r: "r = y # r'"
    by (cases r) auto
  show ?case
    using Cons.prems Cons.IH [of r'] assms(1)
    by (auto simp: r plusAssignAdds_def)
qed

lemma mergeOnto_total:
  assumes "plusAssignAdds ops summable num" and "pos \<in> additive"
      and "positions ops a = positions ops b"
      and "additiveSummable ops additive summable a"
      and "additiveSummable ops additive summable b"
  shows "eventTotal ops num pos (mergeOnto ops additive a b)
           = eventTotal ops num pos a + eventTotal ops num pos b"
  using assms addOnto_total [of ops summable num pos additive "getValues a" "getValues b"]
  by (simp add: eventTotal_def mergeOnto_def positions_def additiveSummable_def)

lemma mergeOnto_summable:
  assumes "plusAssignAdds ops summable num"
      and "positions ops a = positions ops b"
      and "additiveSummable ops additive summable a"
      and "additiveSummable ops additive summable b"
  shows "additiveSummable ops additive summable (mergeOnto ops additive a b)"
  using assms addOnto_summable [of ops summable num "getValues a" "getValues b" additive]
  by (simp add: mergeOnto_def positions_def additiveSummable_def)

lemma allFieldsPresent_positions:
  "allFieldsPresent ops xs =
     (\<forall>p \<in> positions ops ` set xs. \<forall>q \<in> positions ops ` set xs. length p = length q \<longrightarrow> p = q)"
  by (simp add: allFieldsPresent_def positions_def)

lemma allFieldsPresent_subset:
  "allFieldsPresent ops xs \<Longrightarrow> positions ops ` set ys \<subseteq> positions ops ` set xs
     \<Longrightarrow> allFieldsPresent ops ys"
  unfolding allFieldsPresent_positions
proof (intro ballI impI)
  fix p q
  assume all: "\<forall>p \<in> positions ops ` set xs. \<forall>q \<in> positions ops ` set xs.
                 length p = length q \<longrightarrow> p = q"
    and sub: "positions ops ` set ys \<subseteq> positions ops ` set xs"
    and pq: "p \<in> positions ops ` set ys" "q \<in> positions ops ` set ys" "length p = length q"
  have p: "p \<in> positions ops ` set xs"
    using sub pq(1) by (rule subsetD)
  have q: "q \<in> positions ops ` set xs"
    using sub pq(2) by (rule subsetD)
  from bspec [OF bspec [OF all p] q] pq(3) show "p = q"
    by (rule mp)
qed

lemma allFieldsPresentD:
  assumes "allFieldsPresent ops xs" and "a \<in> set xs" and "b \<in> set xs"
      and "length (getValues a) = length (getValues b)"
  shows "positions ops a = positions ops b"
  using bspec [OF bspec [OF assms(1) [unfolded allFieldsPresent_def] assms(2)] assms(3)] assms(4)
  by (rule mp)

lemma allFieldsPresent_tail: "allFieldsPresent ops (a # xs) \<Longrightarrow> allFieldsPresent ops xs"
  by (erule allFieldsPresent_subset) auto

lemma allFieldsPresent_merge:
  "allFieldsPresent ops (a # b # xs) \<Longrightarrow> allFieldsPresent ops (mergeOnto ops additive a b # xs)"
  by (erule allFieldsPresent_subset) auto

lemma mergeRuns_fieldTotal:
  "plusAssignAdds ops summable num \<Longrightarrow> pos \<in> additive \<Longrightarrow> allFieldsPresent ops xs \<Longrightarrow>
   (\<forall>e \<in> set xs. additiveSummable ops additive summable e) \<Longrightarrow>
     fieldTotal ops num pos (mergeRuns ops additive xs) = fieldTotal ops num pos xs"
proof (induction ops additive xs rule: mergeRuns.induct)
  case (1 ops additive lhs rhs rest)
  show ?case
  proof (cases "length (getValues lhs) = length (getValues rhs)
                \<and> needMerge ops additive (getValues lhs) (getValues rhs)")
    case True
    then have pos: "positions ops lhs = positions ops rhs"
      using allFieldsPresentD [OF "1.prems"(3), of lhs rhs] by simp
    have sl: "additiveSummable ops additive summable lhs"
      and sr: "additiveSummable ops additive summable rhs"
      using "1.prems"(4) by simp_all
    have inv1: "allFieldsPresent ops (mergeOnto ops additive lhs rhs # rest)"
      using "1.prems"(3) by (rule allFieldsPresent_merge)
    have inv2: "\<forall>e \<in> set (mergeOnto ops additive lhs rhs # rest).
                  additiveSummable ops additive summable e"
      using mergeOnto_summable [OF "1.prems"(1) pos sl sr] "1.prems"(4) by simp
    have "fieldTotal ops num pos (mergeRuns ops additive (mergeOnto ops additive lhs rhs # rest))
            = fieldTotal ops num pos (mergeOnto ops additive lhs rhs # rest)"
      using "1.IH"(1) [OF True "1.prems"(1,2) inv1 inv2] .
    moreover have "eventTotal ops num pos (mergeOnto ops additive lhs rhs)
            = eventTotal ops num pos lhs + eventTotal ops num pos rhs"
      using "1.prems"(1,2) pos sl sr by (rule mergeOnto_total)
    ultimately show ?thesis
      using True by (simp add: fieldTotal_def add.assoc)
  next
    case False
    have inv1: "allFieldsPresent ops (rhs # rest)"
      using "1.prems"(3) by (rule allFieldsPresent_tail)
    have inv2: "\<forall>e \<in> set (rhs # rest). additiveSummable ops additive summable e"
      using "1.prems"(4) by simp
    have "fieldTotal ops num pos (mergeRuns ops additive (rhs # rest))
            = fieldTotal ops num pos (rhs # rest)"
      using "1.IH"(2) [OF False "1.prems"(1,2) inv1 inv2] .
    then show ?thesis
      using False by (auto simp: fieldTotal_def)
  qed
qed simp_all

text \<open>
  C4, as amended. Take a batch that is not empty and in which all fields are present
  (events with the same number of values have the same positions at depth 0), a reading
  \<open>num\<close> of values as numbers, and a class \<open>summable\<close> of values that holds the
  batch's values at additive positions and on which \<open>+=\<close> adds under \<open>num\<close>; let
  \<open>!=\<close> and \<open><\<close> on \<open>FieldValue\<close> be inequality and a strict total order, so that
  the sort is defined. Then sorting and merging ends with a batch, and for every additive
  position the values at that position add up to the same total after as before.
\<close>

theorem additive_totals_kept:
  assumes "fieldValuesOrdered ops"
      and "plusAssignAdds ops summable num"
      and "allFieldsPresent ops data"
      and "\<forall>e \<in> set data. additiveSummable ops additive summable e"
      and "data \<noteq> []"
      and "pos \<in> additive"
  shows "\<exists>mergedData. mergeSorted ops additive (sortEvents ops data) = Some mergedData
           \<and> fieldTotal ops num pos mergedData = fieldTotal ops num pos data"
proof -
  let ?sorted = "sortEvents ops data"
  have "?sorted \<noteq> []"
    using assms(5) mset_sortEvents [of ops data] by (metis mset_zero_iff)
  then have "mergeSorted ops additive ?sorted = Some (mergeRuns ops additive ?sorted)"
    by (simp add: mergeSorted_mergeRuns)
  moreover have "allFieldsPresent ops ?sorted"
    using assms(3) by (rule allFieldsPresent_subset) (simp add: set_sortEvents)
  then have "fieldTotal ops num pos (mergeRuns ops additive ?sorted) = fieldTotal ops num pos ?sorted"
    using assms(2,4,6) by (intro mergeRuns_fieldTotal) (simp_all add: set_sortEvents)
  moreover have "fieldTotal ops num pos ?sorted = fieldTotal ops num pos data"
    by (rule fieldTotal_mset) (rule mset_sortEvents)
  ultimately show ?thesis by simp
qed

lemma exOps_adds: "plusAssignAdds exOps exIsInt exIntOf"
  unfolding plusAssignAdds_def
proof (intro allI impI)
  fix v w
  assume "exIsInt v \<and> exIsInt w"
  then show "exIsInt (plusAssign exOps v w)
             \<and> exIntOf (plusAssign exOps v w) = exIntOf v + exIntOf w"
    by (cases v; cases w) (auto simp: exOps_def)
qed

theorem additive_totals_kept_witness:
  "fieldValuesOrdered exOps
   \<and> plusAssignAdds exOps exIsInt exIntOf
   \<and> allFieldsPresent exOps
        [exEvent 10000 [intField 1 50, intField 2 1, intField 3 100, intField 4 200],
         exEvent 10000 [intField 1 50, intField 2 1, intField 3 100, intField 4 200],
         exEvent 10000 [intField 1 50, intField 2 2, intField 3 100, intField 4 200]]
   \<and> mergeSorted exOps {3, 4} (sortEvents exOps
        [exEvent 10000 [intField 1 50, intField 2 1, intField 3 100, intField 4 200],
         exEvent 10000 [intField 1 50, intField 2 1, intField 3 100, intField 4 200],
         exEvent 10000 [intField 1 50, intField 2 2, intField 3 100, intField 4 200]])
      = Some [exEvent 10000 [intField 1 50, intField 2 1, intField 3 200, intField 4 400],
              exEvent 10000 [intField 1 50, intField 2 2, intField 3 100, intField 4 200]]
   \<and> fieldTotal exOps exIntOf 3
        [exEvent 10000 [intField 1 50, intField 2 1, intField 3 200, intField 4 400],
         exEvent 10000 [intField 1 50, intField 2 2, intField 3 100, intField 4 200]]
      = fieldTotal exOps exIntOf 3
        [exEvent 10000 [intField 1 50, intField 2 1, intField 3 100, intField 4 200],
         exEvent 10000 [intField 1 50, intField 2 1, intField 3 100, intField 4 200],
         exEvent 10000 [intField 1 50, intField 2 2, intField 3 100, intField 4 200]]"
proof -
  let ?data = "[exEvent 10000 [intField 1 50, intField 2 1, intField 3 100, intField 4 200],
         exEvent 10000 [intField 1 50, intField 2 1, intField 3 100, intField 4 200],
         exEvent 10000 [intField 1 50, intField 2 2, intField 3 100, intField 4 200]]"
  let ?out = "[exEvent 10000 [intField 1 50, intField 2 1, intField 3 200, intField 4 400],
              exEvent 10000 [intField 1 50, intField 2 2, intField 3 100, intField 4 200]]"
  have a: "allFieldsPresent exOps ?data"
    by (simp add: allFieldsPresent_def positions_def exEvent_def intField_def exOps_def)
  have b: "\<forall>e \<in> set ?data. additiveSummable exOps {3, 4} exIsInt e"
    by (simp add: additiveSummable_def exEvent_def intField_def exOps_def)
  have c: "?data \<noteq> []" by simp
  have d: "(3 :: int) \<in> {3, 4}" by simp
  have e: "mergeSorted exOps {3, 4} (sortEvents exOps ?data) = Some ?out"
    by (simp add: ex_defs)
  from additive_totals_kept [OF exOps_ordered exOps_adds a b c d] e exOps_ordered exOps_adds a
  show ?thesis by simp
qed

text \<open>
  Without "all fields are present" the totals are not kept. Both events below are of
  atom 10000 (additive fields 3 and 4) and have three values; the first lacks field 4,
  the second lacks field 3. They differ at index 2 only, where the left position 3 is
  additive, so the loop merges them: the 10 of field 3 is added onto the 7 of field 4.
  The total of field 3 falls from 10 to 0 (and that of field 4 rises from 7 to 17).
\<close>

theorem additive_totals_counterexample:
  "mapAndMergeIsolatedUidsToHostUid exOps exTables
     [exEvent 10000 [intField 1 50, intField 2 1, intField 3 10],
      exEvent 10000 [intField 1 50, intField 2 1, intField 4 7]]
     exHost 10000
     = (Merged, [exEvent 10000 [intField 1 50, intField 2 1, intField 4 17]])
   \<and> fieldTotal exOps exIntOf 3
        [exEvent 10000 [intField 1 50, intField 2 1, intField 3 10],
         exEvent 10000 [intField 1 50, intField 2 1, intField 4 7]]
      = 10
   \<and> fieldTotal exOps exIntOf 3 [exEvent 10000 [intField 1 50, intField 2 1, intField 4 17]] = 0
   \<and> fieldTotal exOps exIntOf 3 [exEvent 10000 [intField 1 50, intField 2 1, intField 4 17]]
       \<noteq> fieldTotal exOps exIntOf (3 :: int)
           [exEvent 10000 [intField 1 50, intField 2 1, intField 3 10],
            exEvent 10000 [intField 1 50, intField 2 1, intField 4 7]]"
  by (simp add: ex_defs fieldTotal_def eventTotal_def)

subsection \<open>The order on merge keys\<close>

lemma keyOrder_iff:
  "((m, xs), (n, ys)) \<in> keyOrder ops
     = (m < n \<or> (m = n \<and> (xs, ys) \<in> lexord {(x, y). fvLess ops x y}))"
  by (simp add: keyOrder_def)

lemma keyOrder_irrefl: "fieldValuesOrdered ops \<Longrightarrow> (x, x) \<notin> keyOrder ops"
  by (cases x) (simp add: keyOrder_iff fieldValuesOrdered_def lexord_irreflexive)

lemma keyOrder_trans:
  assumes "fieldValuesOrdered ops" and "(x, y) \<in> keyOrder ops" and "(y, z) \<in> keyOrder ops"
  shows "(x, z) \<in> keyOrder ops"
proof -
  have "trans (keyOrder ops)"
    unfolding keyOrder_def
    by (intro trans_lex_prod lexord_transI fvLess_trans assms(1)) simp
  then show ?thesis
    using assms(2,3) by (rule transD)
qed

lemma keyOrder_total:
  assumes "fieldValuesOrdered ops" and "x \<noteq> y"
  shows "(x, y) \<in> keyOrder ops \<or> (y, x) \<in> keyOrder ops"
proof -
  obtain m xs where x: "x = (m, xs)" by (cases x)
  obtain n ys where y: "y = (n, ys)" by (cases y)
  have "\<forall>a b. (a, b) \<in> {(x, y). fvLess ops x y} \<or> a = b \<or> (b, a) \<in> {(x, y). fvLess ops x y}"
    using assms(1) by (auto simp: fieldValuesOrdered_def)
  from lexord_linear [OF this, of xs ys] assms(2)
  show ?thesis
    unfolding x y keyOrder_iff by (cases m n rule: linorder_cases) auto
qed

lemma recordOrder_keyOrder:
  "recordOrder ops a b
     = (((length (getValues a), getValues a), (length (getValues b), getValues b)) \<in> keyOrder ops)"
  by (simp add: recordOrder_def keyOrder_iff)

lemma mergeKey_below:
  assumes "(mergeKey k b, mergeKey k a) \<in> keyOrder ops"
  shows "recordOrder ops b a"
proof (cases "length (getValues b) < length (getValues a)")
  case True
  then show ?thesis by (simp add: recordOrder_def)
next
  case False
  with assms have len: "length (getValues b) = length (getValues a)"
    and lex: "(take (length (getValues b) - k) (getValues b),
               take (length (getValues a) - k) (getValues a)) \<in> lexord {(x, y). fvLess ops x y}"
    by (auto simp: mergeKey_def keyOrder_iff)
  have "(take (length (getValues b) - k) (getValues b) @ drop (length (getValues b) - k) (getValues b),
         take (length (getValues a) - k) (getValues a) @ drop (length (getValues a) - k) (getValues a))
          \<in> lexord {(x, y). fvLess ops x y}"
    using lex by (rule lexord_sufI) (simp add: len)
  then show ?thesis
    using len by (simp add: recordOrder_def)
qed

subsection \<open>The sorted batch\<close>

lemma set_insertEvent: "set (insertEvent ops e xs) = insert e (set xs)"
  by (induction xs) auto

lemma recordOrder_cong:
  "getValues a = getValues a' \<Longrightarrow> getValues b = getValues b'
     \<Longrightarrow> recordOrder ops a b = recordOrder ops a' b'"
  by (simp add: recordOrder_def)

lemma recordOrder_between:
  assumes ord: "fieldValuesOrdered ops"
      and "\<not> recordOrder ops x e" and "\<not> recordOrder ops y x"
  shows "\<not> recordOrder ops y e"
proof
  assume ye: "recordOrder ops y e"
  from recordOrder_total [OF ord, of x y] assms(3)
  consider "recordOrder ops x y" | "getValues x = getValues y" by blast
  then show False
  proof cases
    case 1
    then have "recordOrder ops x e"
      using ye by (rule recordOrder_trans [OF ord])
    with assms(2) show False by simp
  next
    case 2
    then have "recordOrder ops x e = recordOrder ops y e"
      by (intro recordOrder_cong) simp_all
    with ye assms(2) show False by simp
  qed
qed

lemma sorted_insertEvent:
  assumes ord: "fieldValuesOrdered ops"
  shows "sorted_wrt (\<lambda>a b. \<not> recordOrder ops b a) xs
           \<Longrightarrow> sorted_wrt (\<lambda>a b. \<not> recordOrder ops b a) (insertEvent ops e xs)"
proof (induction xs)
  case Nil
  then show ?case by simp
next
  case (Cons x xs)
  show ?case
  proof (cases "recordOrder ops x e")
    case True
    then have "\<not> recordOrder ops e x"
      using recordOrder_trans [OF ord, of x e x] recordOrder_irrefl [OF ord, of x] by blast
    then show ?thesis
      using True Cons by (auto simp: lessEvent_recordOrder [OF ord] set_insertEvent)
  next
    case False
    then have "\<forall>y \<in> set xs. \<not> recordOrder ops y e"
      using Cons.prems recordOrder_between [OF ord, of x e] by auto
    then show ?thesis
      using False Cons.prems by (auto simp: lessEvent_recordOrder [OF ord])
  qed
qed

lemma sorted_sortEvents:
  assumes "fieldValuesOrdered ops"
  shows "sorted_wrt (\<lambda>a b. \<not> recordOrder ops b a) (sortEvents ops data)"
  unfolding sortEvents_def
  by (induction data) (simp_all add: sorted_insertEvent [OF assms])

lemma keys_sorted_sortEvents:
  assumes "fieldValuesOrdered ops"
  shows "sorted_wrt (\<lambda>x y. (y, x) \<notin> keyOrder ops) (map (mergeKey k) (sortEvents ops data))"
proof -
  have "sorted_wrt (\<lambda>a b. (mergeKey k b, mergeKey k a) \<notin> keyOrder ops) (sortEvents ops data)"
    using sorted_sortEvents [OF assms, of data]
    by (rule sorted_wrt_mono_rel [rotated]) (auto dest: mergeKey_below)
  then show ?thesis
    by (simp add: sorted_wrt_map)
qed

subsection \<open>Merging when the additive values are the last ones\<close>

lemma addOnto_nth:
  "length l = length r \<Longrightarrow> p < length r \<Longrightarrow>
     addOnto ops additive l r ! p =
       (if getPosAtDepth ops (mField (l ! p)) 0 \<in> additive
        then (r ! p)\<lparr>mValue := plusAssign ops (mValue (r ! p)) (mValue (l ! p))\<rparr>
        else r ! p)"
proof (induction l r arbitrary: p rule: list_induct2)
  case Nil
  then show ?case by simp
next
  case (Cons x xs y ys)
  then show ?case by (cases p) simp_all
qed

lemma mergeOnto_nth:
  assumes "additiveLast ops additive k a"
      and "length (getValues a) = length (getValues b)"
      and "p < length (getValues b)"
  shows "getValues (mergeOnto ops additive a b) ! p =
           (if length (getValues b) - k \<le> p
            then (getValues b ! p)\<lparr>mValue :=
                   plusAssign ops (mValue (getValues b ! p)) (mValue (getValues a ! p))\<rparr>
            else getValues b ! p)"
proof -
  have "(getPosAtDepth ops (mField (getValues a ! p)) 0 \<in> additive)
          = (length (getValues b) - k \<le> p)"
    using assms by (simp add: additiveLast_def)
  then show ?thesis
    using assms(2,3) by (simp add: mergeOnto_def addOnto_nth)
qed

lemma additiveLast_positions:
  "additiveLast ops additive k e =
     (\<forall>p < length (positions ops e).
        (positions ops e ! p \<in> additive) = (length (positions ops e) - k \<le> p))"
  by (simp add: additiveLast_def positions_def)

lemma additiveLast_mergeOnto:
  "additiveLast ops additive k b \<Longrightarrow> additiveLast ops additive k (mergeOnto ops additive a b)"
  by (simp add: additiveLast_positions)

lemma mergeKey_mergeOnto:
  assumes "additiveLast ops additive k a"
      and "length (getValues a) = length (getValues b)"
  shows "mergeKey k (mergeOnto ops additive a b) = mergeKey k b"
proof -
  have "take (length (getValues b) - k) (getValues (mergeOnto ops additive a b))
          = take (length (getValues b) - k) (getValues b)"
  proof (rule nth_take_lemma)
    show "length (getValues b) - k \<le> length (getValues (mergeOnto ops additive a b))"
      by simp
    show "length (getValues b) - k \<le> length (getValues b)"
      by simp
    show "i < length (getValues b) - k
          \<longrightarrow> getValues (mergeOnto ops additive a b) ! i = getValues b ! i" for i
      using mergeOnto_nth [OF assms, of i] by simp
  qed
  then show ?thesis
    by (simp add: mergeKey_def)
qed

lemma needMerge_mergeKey:
  assumes "fieldValuesOrdered ops" and "additiveLast ops additive k a"
  shows "(length (getValues a) = length (getValues b)
          \<and> needMerge ops additive (getValues a) (getValues b))
           = (mergeKey k a = mergeKey k b)"
proof
  assume el: "length (getValues a) = length (getValues b)
              \<and> needMerge ops additive (getValues a) (getValues b)"
  then have len: "length (getValues a) = length (getValues b)"
    by simp
  have "take (length (getValues a) - k) (getValues a)
          = take (length (getValues a) - k) (getValues b)"
  proof (rule nth_take_lemma)
    show "length (getValues a) - k \<le> length (getValues a)" by simp
    show "length (getValues a) - k \<le> length (getValues b)" using len by simp
    show "i < length (getValues a) - k \<longrightarrow> getValues a ! i = getValues b ! i" for i
    proof (intro impI, rule ccontr)
      assume that: "i < length (getValues a) - k"
      assume "getValues a ! i \<noteq> getValues b ! i"
      then have "fvNotEqual ops (getValues a ! i) (getValues b ! i)"
        using assms(1) by (simp add: fieldValuesOrdered_def)
      then have "getPosAtDepth ops (mField (getValues a ! i)) 0 \<in> additive"
        using el len that needMerge_iff [OF len, of ops additive] by auto
      then have "length (getValues a) - k \<le> i"
        using assms(2) that by (simp add: additiveLast_def)
      with that show False by simp
    qed
  qed
  then show "mergeKey k a = mergeKey k b"
    using len by (simp add: mergeKey_def)
next
  assume key: "mergeKey k a = mergeKey k b"
  then have len: "length (getValues a) = length (getValues b)"
    by (simp add: mergeKey_def)
  have "snd (mergeKey k a) = snd (mergeKey k b)"
    using key by simp
  then have "take (length (getValues a) - k) (getValues a)
          = take (length (getValues b) - k) (getValues b)"
    by (simp add: mergeKey_def)
  then have pre: "take (length (getValues a) - k) (getValues a)
                = take (length (getValues a) - k) (getValues b)"
    using len by simp
  have "getPosAtDepth ops (mField (getValues a ! p)) 0 \<in> additive"
    if "p < length (getValues a)" "fvNotEqual ops (getValues a ! p) (getValues b ! p)" for p
  proof -
    have "getValues a ! p \<noteq> getValues b ! p"
      using that(2) assms(1) by (simp add: fieldValuesOrdered_def)
    then have "\<not> p < length (getValues a) - k"
      using pre by (metis nth_take)
    then show ?thesis
      using assms(2) that(1) by (simp add: additiveLast_def)
  qed
  then show "length (getValues a) = length (getValues b)
             \<and> needMerge ops additive (getValues a) (getValues b)"
    using len by (simp add: needMerge_iff)
qed

lemma additiveLast_same_positions:
  assumes "additiveLast ops additive k a" and "additiveLast ops additive k b"
      and "length (getValues a) = length (getValues b)" and "p < length (getValues a)"
  shows "(getPosAtDepth ops (mField (getValues a ! p)) 0 \<in> additive)
           = (getPosAtDepth ops (mField (getValues b ! p)) 0 \<in> additive)"
  using assms by (simp add: additiveLast_def)

lemma mergeEligible_mergeKey:
  assumes "fieldValuesOrdered ops"
      and "additiveLast ops additive k a" and "additiveLast ops additive k b"
  shows "mergeEligible ops additive a b = (mergeKey k a = mergeKey k b)"
proof -
  have "mergeEligible ops additive a b
          = (length (getValues a) = length (getValues b)
             \<and> needMerge ops additive (getValues a) (getValues b))"
  proof (cases "length (getValues a) = length (getValues b)")
    case True
    then show ?thesis
      using additiveLast_same_positions [OF assms(2,3) True]
      by (auto simp: mergeEligible_def needMerge_iff)
  next
    case False
    then show ?thesis
      by (simp add: mergeEligible_def)
  qed
  then show ?thesis
    using needMerge_mergeKey [OF assms(1,2), of b] by simp
qed


lemma mergeRuns_step:
  assumes "fieldValuesOrdered ops" and "additiveLast ops additive k lhs"
  shows "mergeRuns ops additive (lhs # rhs # rest) =
           (if mergeKey k lhs = mergeKey k rhs
            then mergeRuns ops additive (mergeOnto ops additive lhs rhs # rest)
            else lhs # mergeRuns ops additive (rhs # rest))"
  using needMerge_mergeKey [OF assms, of rhs]
  by simp

lemma mergeKey_length: "mergeKey k a = mergeKey k b \<Longrightarrow> length (getValues a) = length (getValues b)"
  by (simp add: mergeKey_def)

lemma additiveLast_mergeRuns:
  "\<forall>e \<in> set xs. additiveLast ops additive k e
     \<Longrightarrow> \<forall>e \<in> set (mergeRuns ops additive xs). additiveLast ops additive k e"
  by (induction ops additive xs rule: mergeRuns.induct) (auto simp: additiveLast_mergeOnto)

lemma mergeKey_mergeRuns:
  "fieldValuesOrdered ops \<Longrightarrow> \<forall>e \<in> set xs. additiveLast ops additive k e
     \<Longrightarrow> mergeKey k ` set (mergeRuns ops additive xs) = mergeKey k ` set xs"
proof (induction ops additive xs rule: mergeRuns.induct)
  case (1 ops additive lhs rhs rest)
  have al: "additiveLast ops additive k lhs"
    using "1.prems"(2) by simp
  note step = mergeRuns_step [OF "1.prems"(1) al, of rhs rest]
  show ?case
  proof (cases "mergeKey k lhs = mergeKey k rhs")
    case True
    then have cond: "length (getValues lhs) = length (getValues rhs)
                     \<and> needMerge ops additive (getValues lhs) (getValues rhs)"
      using needMerge_mergeKey [OF "1.prems"(1) al, of rhs]
      by simp
    have key: "mergeKey k (mergeOnto ops additive lhs rhs) = mergeKey k rhs"
      using al cond by (intro mergeKey_mergeOnto) simp_all
    have "\<forall>e \<in> set (mergeOnto ops additive lhs rhs # rest). additiveLast ops additive k e"
      using "1.prems"(2) by (simp add: additiveLast_mergeOnto)
    from "1.IH"(1) [OF cond "1.prems"(1) this]
    show ?thesis
      using True key by (simp add: step del: mergeRuns.simps(1))
  next
    case False
    then have cond: "\<not> (length (getValues lhs) = length (getValues rhs)
                     \<and> needMerge ops additive (getValues lhs) (getValues rhs))"
      using needMerge_mergeKey [OF "1.prems"(1) al, of rhs]
      by simp
    have "\<forall>e \<in> set (rhs # rest). additiveLast ops additive k e"
      using "1.prems"(2) by simp
    from "1.IH"(2) [OF cond "1.prems"(1) this]
    show ?thesis
      using False by (simp add: step del: mergeRuns.simps(1))
  qed
qed simp_all

lemma keys_strictly_above:
  assumes ord: "fieldValuesOrdered ops"
      and sorted: "sorted_wrt (\<lambda>x y. (y, x) \<notin> keyOrder ops) (\<kappa>0 # \<kappa>1 # ks)"
      and ne: "\<kappa>0 \<noteq> \<kappa>1"
  shows "\<forall>\<kappa> \<in> set (\<kappa>1 # ks). (\<kappa>0, \<kappa>) \<in> keyOrder ops"
proof
  fix \<kappa> assume mem: "\<kappa> \<in> set (\<kappa>1 # ks)"
  have "(\<kappa>1, \<kappa>0) \<notin> keyOrder ops"
    using sorted by simp
  then have first: "(\<kappa>0, \<kappa>1) \<in> keyOrder ops"
    using keyOrder_total [OF ord ne] by blast
  show "(\<kappa>0, \<kappa>) \<in> keyOrder ops"
  proof (cases "\<kappa> = \<kappa>1")
    case True
    then show ?thesis using first by simp
  next
    case False
    then have "\<kappa> \<in> set ks" using mem by simp
    then have "(\<kappa>, \<kappa>1) \<notin> keyOrder ops"
      using sorted by simp
    then have "(\<kappa>1, \<kappa>) \<in> keyOrder ops"
      using keyOrder_total [OF ord, of \<kappa>1 \<kappa>] False by blast
    with first show ?thesis
      by (rule keyOrder_trans [OF ord])
  qed
qed

lemma keys_strict_mergeRuns:
  "fieldValuesOrdered ops \<Longrightarrow> \<forall>e \<in> set xs. additiveLast ops additive k e
     \<Longrightarrow> sorted_wrt (\<lambda>x y. (y, x) \<notin> keyOrder ops) (map (mergeKey k) xs)
     \<Longrightarrow> sorted_wrt (\<lambda>x y. (x, y) \<in> keyOrder ops) (map (mergeKey k) (mergeRuns ops additive xs))"
proof (induction ops additive xs rule: mergeRuns.induct)
  case (1 ops additive lhs rhs rest)
  have al: "additiveLast ops additive k lhs"
    using "1.prems"(2) by simp
  note step = mergeRuns_step [OF "1.prems"(1) al, of rhs rest]
  show ?case
  proof (cases "mergeKey k lhs = mergeKey k rhs")
    case True
    then have cond: "length (getValues lhs) = length (getValues rhs)
                     \<and> needMerge ops additive (getValues lhs) (getValues rhs)"
      using needMerge_mergeKey [OF "1.prems"(1) al, of rhs]
      by simp
    have key: "mergeKey k (mergeOnto ops additive lhs rhs) = mergeKey k rhs"
      using al cond by (intro mergeKey_mergeOnto) simp_all
    have inv: "\<forall>e \<in> set (mergeOnto ops additive lhs rhs # rest). additiveLast ops additive k e"
      using "1.prems"(2) by (simp add: additiveLast_mergeOnto)
    have "sorted_wrt (\<lambda>x y. (y, x) \<notin> keyOrder ops)
            (map (mergeKey k) (mergeOnto ops additive lhs rhs # rest))"
      using "1.prems"(3) by (simp add: key)
    from "1.IH"(1) [OF cond "1.prems"(1) inv this]
    show ?thesis
      using True by (simp add: step del: mergeRuns.simps(1))
  next
    case False
    then have cond: "\<not> (length (getValues lhs) = length (getValues rhs)
                     \<and> needMerge ops additive (getValues lhs) (getValues rhs))"
      using needMerge_mergeKey [OF "1.prems"(1) al, of rhs]
      by simp
    have inv: "\<forall>e \<in> set (rhs # rest). additiveLast ops additive k e"
      using "1.prems"(2) by simp
    have "sorted_wrt (\<lambda>x y. (y, x) \<notin> keyOrder ops) (map (mergeKey k) (rhs # rest))"
      using "1.prems"(3) by simp
    from "1.IH"(2) [OF cond "1.prems"(1) inv this]
    have tail: "sorted_wrt (\<lambda>x y. (x, y) \<in> keyOrder ops)
                  (map (mergeKey k) (mergeRuns ops additive (rhs # rest)))" .
    have "\<forall>\<kappa> \<in> set (mergeKey k rhs # map (mergeKey k) rest). (mergeKey k lhs, \<kappa>) \<in> keyOrder ops"
      using "1.prems"(3) False by (intro keys_strictly_above [OF "1.prems"(1)]) simp_all
    then have "\<forall>\<kappa> \<in> mergeKey k ` set (mergeRuns ops additive (rhs # rest)).
                 (mergeKey k lhs, \<kappa>) \<in> keyOrder ops"
      using mergeKey_mergeRuns [OF "1.prems"(1) inv] by simp
    then show ?thesis
      using False tail by (simp add: step del: mergeRuns.simps(1))
  qed
qed simp_all

lemma mergeOnto_summable_last:
  assumes adds: "plusAssignAdds ops summable num"
      and al: "additiveLast ops additive k a"
      and len: "length (getValues a) = length (getValues b)"
      and sa: "\<forall>p < length (getValues a). length (getValues a) - k \<le> p
                 \<longrightarrow> summable (mValue (getValues a ! p))"
      and sb: "\<forall>p < length (getValues b). length (getValues b) - k \<le> p
                 \<longrightarrow> summable (mValue (getValues b ! p))"
  shows "\<forall>p < length (getValues (mergeOnto ops additive a b)).
           length (getValues (mergeOnto ops additive a b)) - k \<le> p
             \<longrightarrow> summable (mValue (getValues (mergeOnto ops additive a b) ! p))"
proof (intro allI impI)
  fix p
  assume p: "p < length (getValues (mergeOnto ops additive a b))"
    and last: "length (getValues (mergeOnto ops additive a b)) - k \<le> p"
  then have pb: "p < length (getValues b)" and lb: "length (getValues b) - k \<le> p"
    by simp_all
  have "summable (mValue (getValues a ! p))" "summable (mValue (getValues b ! p))"
    using sa sb pb lb len by simp_all
  then have "summable (plusAssign ops (mValue (getValues b ! p)) (mValue (getValues a ! p)))"
    using adds by (simp add: plusAssignAdds_def)
  then show "summable (mValue (getValues (mergeOnto ops additive a b) ! p))"
    using mergeOnto_nth [OF al len pb] lb by simp
qed

lemma mergeOnto_num_last:
  assumes adds: "plusAssignAdds ops summable num"
      and al: "additiveLast ops additive k a"
      and len: "length (getValues a) = length (getValues b)"
      and sa: "\<forall>p < length (getValues a). length (getValues a) - k \<le> p
                 \<longrightarrow> summable (mValue (getValues a ! p))"
      and sb: "\<forall>p < length (getValues b). length (getValues b) - k \<le> p
                 \<longrightarrow> summable (mValue (getValues b ! p))"
      and pb: "p < length (getValues b)" and lb: "length (getValues b) - k \<le> p"
  shows "num (mValue (getValues (mergeOnto ops additive a b) ! p))
           = num (mValue (getValues a ! p)) + num (mValue (getValues b ! p))"
proof -
  have "summable (mValue (getValues a ! p))" "summable (mValue (getValues b ! p))"
    using sa sb pb lb len by simp_all
  then have "num (plusAssign ops (mValue (getValues b ! p)) (mValue (getValues a ! p)))
               = num (mValue (getValues b ! p)) + num (mValue (getValues a ! p))"
    using adds by (simp add: plusAssignAdds_def)
  then show ?thesis
    using mergeOnto_nth [OF al len pb] lb by (simp add: add.commute)
qed

lemma mergeRuns_group_sum:
  "fieldValuesOrdered ops \<Longrightarrow> plusAssignAdds ops summable num \<Longrightarrow>
   \<forall>e \<in> set xs. additiveLast ops additive k e \<Longrightarrow>
   \<forall>e \<in> set xs. \<forall>p < length (getValues e). length (getValues e) - k \<le> p
                    \<longrightarrow> summable (mValue (getValues e ! p)) \<Longrightarrow>
   sorted_wrt (\<lambda>x y. (y, x) \<notin> keyOrder ops) (map (mergeKey k) xs) \<Longrightarrow>
   out \<in> set (mergeRuns ops additive xs) \<Longrightarrow>
   p < length (getValues out) \<Longrightarrow> length (getValues out) - k \<le> p \<Longrightarrow>
     num (mValue (getValues out ! p))
       = sum_list (map (\<lambda>e. num (mValue (getValues e ! p)))
                     (filter (\<lambda>e. mergeKey k e = mergeKey k out) xs))"
proof (induction ops additive xs rule: mergeRuns.induct)
  case (1 ops additive lhs rhs rest)
  have ord: "fieldValuesOrdered ops" and adds: "plusAssignAdds ops summable num"
    using "1.prems"(1,2) .
  have al: "additiveLast ops additive k lhs"
    using "1.prems"(3) by simp
  have sl: "\<forall>p < length (getValues lhs). length (getValues lhs) - k \<le> p
              \<longrightarrow> summable (mValue (getValues lhs ! p))"
    and sr: "\<forall>p < length (getValues rhs). length (getValues rhs) - k \<le> p
              \<longrightarrow> summable (mValue (getValues rhs ! p))"
    using "1.prems"(4) by simp_all
  note step = mergeRuns_step [OF ord al, of rhs rest]
  show ?case
  proof (cases "mergeKey k lhs = mergeKey k rhs")
    case True
    let ?m = "mergeOnto ops additive lhs rhs"
    have cond: "length (getValues lhs) = length (getValues rhs)
                     \<and> needMerge ops additive (getValues lhs) (getValues rhs)"
      using True needMerge_mergeKey [OF ord al, of rhs]
      by simp
    then have len: "length (getValues lhs) = length (getValues rhs)" by simp
    have key: "mergeKey k ?m = mergeKey k rhs"
      using al len by (rule mergeKey_mergeOnto)
    have inv1: "\<forall>e \<in> set (?m # rest). additiveLast ops additive k e"
      using "1.prems"(3) by (simp add: additiveLast_mergeOnto)
    have inv2: "\<forall>e \<in> set (?m # rest). \<forall>p < length (getValues e). length (getValues e) - k \<le> p
                    \<longrightarrow> summable (mValue (getValues e ! p))"
      using mergeOnto_summable_last [OF adds al len sl sr] "1.prems"(4) by simp
    have inv3: "sorted_wrt (\<lambda>x y. (y, x) \<notin> keyOrder ops) (map (mergeKey k) (?m # rest))"
      using "1.prems"(5) by (simp add: key)
    have mem: "out \<in> set (mergeRuns ops additive (?m # rest))"
      using "1.prems"(6) True by (simp add: step del: mergeRuns.simps(1))
    have ih: "num (mValue (getValues out ! p))
       = sum_list (map (\<lambda>e. num (mValue (getValues e ! p)))
                     (filter (\<lambda>e. mergeKey k e = mergeKey k out) (?m # rest)))"
      using "1.IH"(1) [OF cond ord adds inv1 inv2 inv3 mem "1.prems"(7,8)] .
    show ?thesis
    proof (cases "mergeKey k rhs = mergeKey k out")
      case same: True
      then have "length (getValues rhs) = length (getValues out)"
        by (rule mergeKey_length)
      then have "num (mValue (getValues ?m ! p))
                   = num (mValue (getValues lhs ! p)) + num (mValue (getValues rhs ! p))"
        using "1.prems"(7,8) by (intro mergeOnto_num_last [OF adds al len sl sr]) simp_all
      then show ?thesis
        using ih same True key by (simp add: add.assoc)
    next
      case False
      then show ?thesis
        using ih True key by simp
    qed
  next
    case False
    then have cond: "\<not> (length (getValues lhs) = length (getValues rhs)
                     \<and> needMerge ops additive (getValues lhs) (getValues rhs))"
      using needMerge_mergeKey [OF ord al, of rhs]
      by simp
    have inv1: "\<forall>e \<in> set (rhs # rest). additiveLast ops additive k e"
      using "1.prems"(3) by simp
    have inv2: "\<forall>e \<in> set (rhs # rest). \<forall>p < length (getValues e). length (getValues e) - k \<le> p
                    \<longrightarrow> summable (mValue (getValues e ! p))"
      using "1.prems"(4) by simp
    have inv3: "sorted_wrt (\<lambda>x y. (y, x) \<notin> keyOrder ops) (map (mergeKey k) (rhs # rest))"
      using "1.prems"(5) by simp
    have above: "\<forall>\<kappa> \<in> set (mergeKey k rhs # map (mergeKey k) rest).
                   (mergeKey k lhs, \<kappa>) \<in> keyOrder ops"
      using "1.prems"(5) False by (intro keys_strictly_above [OF ord]) simp_all
    have other: "mergeKey k e \<noteq> mergeKey k lhs" if "e \<in> set (rhs # rest)" for e
    proof
      assume "mergeKey k e = mergeKey k lhs"
      moreover have "(mergeKey k lhs, mergeKey k e) \<in> keyOrder ops"
        using above that by auto
      ultimately show False
        using keyOrder_irrefl [OF ord, of "mergeKey k lhs"] by simp
    qed
    have other': "mergeKey k e \<noteq> mergeKey k lhs"
      if "e \<in> set (mergeRuns ops additive (rhs # rest))" for e
    proof -
      have "mergeKey k e \<in> mergeKey k ` set (rhs # rest)"
        using that mergeKey_mergeRuns [OF ord inv1] by blast
      then show ?thesis
        using other by auto
    qed
    have mem: "out = lhs \<or> out \<in> set (mergeRuns ops additive (rhs # rest))"
      using "1.prems"(6) False by (simp add: step del: mergeRuns.simps(1))
    show ?thesis
    proof (cases "mergeKey k out = mergeKey k lhs")
      case True
      then have "out = lhs"
        using mem other' by blast
      moreover have "filter (\<lambda>e. mergeKey k e = mergeKey k lhs) (rhs # rest) = []"
        using other by (simp only: filter_empty_conv) blast
      then have "filter (\<lambda>e. mergeKey k e = mergeKey k lhs) (lhs # rhs # rest) = [lhs]"
        by simp
      ultimately show ?thesis
        by simp
    next
      case ne: False
      then have mem': "out \<in> set (mergeRuns ops additive (rhs # rest))"
        using mem by auto
      have "num (mValue (getValues out ! p))
       = sum_list (map (\<lambda>e. num (mValue (getValues e ! p)))
                     (filter (\<lambda>e. mergeKey k e = mergeKey k out) (rhs # rest)))"
        using "1.IH"(2) [OF cond ord adds inv1 inv2 inv3 mem' "1.prems"(7,8)] .
      then show ?thesis
        using ne by (simp add: eq_commute [of "mergeKey k lhs"])
    qed
  qed
next
  case (2 ops additive e)
  then show ?case by simp
next
  case (3 ops additive)
  then show ?case by simp
qed

lemma sum_list_filter_mset:
  fixes f :: "'a \<Rightarrow> 'b::comm_monoid_add"
  assumes "mset xs = mset ys"
  shows "sum_list (map f (filter Q xs)) = sum_list (map f (filter Q ys))"
proof -
  have "mset (filter Q xs) = mset (filter Q ys)"
    using assms by (simp only: mset_filter)
  then have "mset (map f (filter Q xs)) = mset (map f (filter Q ys))"
    by (simp only: mset_map)
  then show ?thesis
    by (metis sum_mset_sum_list)
qed

lemma summable_last:
  assumes "additiveLast ops additive k e" and "additiveSummable ops additive summable e"
  shows "\<forall>p < length (getValues e). length (getValues e) - k \<le> p
           \<longrightarrow> summable (mValue (getValues e ! p))"
proof (intro allI impI)
  fix p assume p: "p < length (getValues e)" and "length (getValues e) - k \<le> p"
  then have "getPosAtDepth ops (mField (getValues e ! p)) 0 \<in> additive"
    using assms(1) by (simp add: additiveLast_def)
  moreover have "getValues e ! p \<in> set (getValues e)"
    using p by simp
  ultimately show "summable (mValue (getValues e ! p))"
    using assms(2) by (simp add: additiveSummable_def)
qed

text \<open>
  When the additive values are the last ones, every group of merge-eligible events ends
  as one event. Take a batch that is not empty, whose events all have their additive
  values as their last \<open>k\<close> values, with \<open>!=\<close> and \<open><\<close> on \<open>FieldValue\<close> being
  inequality and a strict total order, and with \<open>+=\<close> adding under \<open>num\<close> on a
  class \<open>summable\<close> of values that holds the batch's values at additive positions.
  Then sorting and merging ends with a batch in which
  \<^item> for every event \<open>r\<close> of the input exactly one event is merge-eligible with
    \<open>r\<close>, that is, has the number of values of \<open>r\<close> and its values at the positions
    that are not additive, and
  \<^item> every value at an additive position of an output event is the sum of the values
    at that index over the input events that are merge-eligible with it.
\<close>

lemma groups_collapse_when_additive_last:
  assumes ord: "fieldValuesOrdered ops"
      and al: "\<forall>e \<in> set data. additiveLast ops additive k e"
      and adds: "plusAssignAdds ops summable num"
      and sm: "\<forall>e \<in> set data. additiveSummable ops additive summable e"
      and ne: "data \<noteq> []"
  shows "\<exists>mergedData.
           mergeSorted ops additive (sortEvents ops data) = Some mergedData
           \<and> (\<forall>r \<in> set data.
                 \<exists>!i. i < length mergedData \<and> mergeEligible ops additive r (mergedData ! i))
           \<and> (\<forall>out \<in> set mergedData. \<forall>p < length (getValues out).
                 getPosAtDepth ops (mField (getValues out ! p)) 0 \<in> additive
                 \<longrightarrow> num (mValue (getValues out ! p))
                       = sum_list (map (\<lambda>r. num (mValue (getValues r ! p)))
                                    (filter (\<lambda>r. mergeEligible ops additive r out) data)))"
proof -
  let ?sorted = "sortEvents ops data"
  let ?out = "mergeRuns ops additive ?sorted"
  have "?sorted \<noteq> []"
    using ne mset_sortEvents [of ops data] by (metis mset_zero_iff)
  then have run: "mergeSorted ops additive ?sorted = Some ?out"
    by (simp add: mergeSorted_mergeRuns)
  have al_s: "\<forall>e \<in> set ?sorted. additiveLast ops additive k e"
    using al by (simp add: set_sortEvents)
  have al_o: "\<forall>e \<in> set ?out. additiveLast ops additive k e"
    using al_s by (rule additiveLast_mergeRuns)
  have sm_s: "\<forall>e \<in> set ?sorted. \<forall>p < length (getValues e). length (getValues e) - k \<le> p
                \<longrightarrow> summable (mValue (getValues e ! p))"
    using al sm summable_last [of ops additive k _ summable] by (simp add: set_sortEvents)
  have ks: "sorted_wrt (\<lambda>x y. (y, x) \<notin> keyOrder ops) (map (mergeKey k) ?sorted)"
    using ord by (rule keys_sorted_sortEvents)
  have keys: "mergeKey k ` set ?out = mergeKey k ` set data"
    using mergeKey_mergeRuns [OF ord al_s] by (simp add: set_sortEvents)
  have strict: "sorted_wrt (\<lambda>x y. (x, y) \<in> keyOrder ops) (map (mergeKey k) ?out)"
    using ord al_s ks by (rule keys_strict_mergeRuns)
  have distinct_keys: "i = j"
    if "i < length ?out" "j < length ?out" "mergeKey k (?out ! i) = mergeKey k (?out ! j)" for i j
  proof (rule ccontr)
    assume "i \<noteq> j"
    then consider "i < j" | "j < i" by linarith
    then have "(mergeKey k (?out ! i), mergeKey k (?out ! j)) \<in> keyOrder ops
               \<or> (mergeKey k (?out ! j), mergeKey k (?out ! i)) \<in> keyOrder ops"
    proof cases
      case 1
      then show ?thesis
        using sorted_wrt_nth_less [OF strict, of i j] that(1,2) by simp
    next
      case 2
      then show ?thesis
        using sorted_wrt_nth_less [OF strict, of j i] that(1,2) by simp
    qed
    then show False
      using that(3) keyOrder_irrefl [OF ord, of "mergeKey k (?out ! j)"] by simp
  qed
  have one: "\<exists>!i. i < length ?out \<and> mergeEligible ops additive r (?out ! i)" if r: "r \<in> set data" for r
  proof -
    have alr: "additiveLast ops additive k r"
      using al r by simp
    have el: "mergeEligible ops additive r (?out ! j) = (mergeKey k r = mergeKey k (?out ! j))"
      if "j < length ?out" for j
    proof -
      have "?out ! j \<in> set ?out"
        using that by (rule nth_mem)
      then have "additiveLast ops additive k (?out ! j)"
        using al_o by (rule bspec [rotated])
      with ord alr show ?thesis
        by (rule mergeEligible_mergeKey)
    qed
    have "mergeKey k r \<in> mergeKey k ` set ?out"
      using r keys by blast
    then obtain out where "out \<in> set ?out" "mergeKey k out = mergeKey k r"
      by auto
    then obtain i where i: "i < length ?out" "mergeKey k (?out ! i) = mergeKey k r"
      by (metis in_set_conv_nth)
    show ?thesis
    proof (rule ex1I [of _ i])
      show "i < length ?out \<and> mergeEligible ops additive r (?out ! i)"
        using i by (simp add: el)
      show "j = i" if j: "j < length ?out \<and> mergeEligible ops additive r (?out ! j)" for j
      proof (rule distinct_keys)
        show "j < length ?out" "i < length ?out"
          using j i by simp_all
        have "mergeKey k r = mergeKey k (?out ! j)"
          using j el [of j] by simp
        then show "mergeKey k (?out ! j) = mergeKey k (?out ! i)"
          using i by simp
      qed
    qed
  qed
  have sums: "num (mValue (getValues out ! p))
                = sum_list (map (\<lambda>r. num (mValue (getValues r ! p)))
                             (filter (\<lambda>r. mergeEligible ops additive r out) data))"
    if out: "out \<in> set ?out" and p: "p < length (getValues out)"
      and add: "getPosAtDepth ops (mField (getValues out ! p)) 0 \<in> additive" for out p
  proof -
    have alo: "additiveLast ops additive k out"
      using al_o out by simp
    then have last: "length (getValues out) - k \<le> p"
      using p add by (simp add: additiveLast_def)
    have "num (mValue (getValues out ! p))
            = sum_list (map (\<lambda>r. num (mValue (getValues r ! p)))
                         (filter (\<lambda>r. mergeKey k r = mergeKey k out) ?sorted))"
      using ord adds al_s sm_s ks out p last by (rule mergeRuns_group_sum)
    also have "\<dots> = sum_list (map (\<lambda>r. num (mValue (getValues r ! p)))
                         (filter (\<lambda>r. mergeKey k r = mergeKey k out) data))"
      by (rule sum_list_filter_mset) (rule mset_sortEvents)
    also have "filter (\<lambda>r. mergeKey k r = mergeKey k out) data
                 = filter (\<lambda>r. mergeEligible ops additive r out) data"
    proof (rule filter_cong [OF refl])
      fix r assume "r \<in> set data"
      then have "additiveLast ops additive k r"
        using al by simp
      then show "(mergeKey k r = mergeKey k out) = mergeEligible ops additive r out"
        using ord alo mergeEligible_mergeKey [of ops additive k r out] by simp
    qed
    finally show ?thesis .
  qed
  show ?thesis
    using run one sums by blast
qed

text \<open>
  The batch of the source's comment with a third event: the first and the third event
  end as one event with the sums 130 and 240.
\<close>

lemma groups_collapse_example:
  "mergeSorted exOps {3, 4} (sortEvents exOps
        [exEvent 10000 [intField 1 50, intField 2 1, intField 3 100, intField 4 200],
         exEvent 10000 [intField 1 50, intField 2 2, intField 3 10, intField 4 20],
         exEvent 10000 [intField 1 50, intField 2 1, intField 3 30, intField 4 40]])
      = Some [exEvent 10000 [intField 1 50, intField 2 1, intField 3 130, intField 4 240],
              exEvent 10000 [intField 1 50, intField 2 2, intField 3 10, intField 4 20]]"
  by (simp add: ex_defs)

subsection \<open>Groups that stay split\<close>

text \<open>
  C1. The claim fails on the function. Atom 10002 has its uid in field 1 and the
  additive field 2, which comes before field 3, a field that is not additive. All
  three events of the batch have the batch's tag id and all their fields. The first
  event has the isolated uid 99, whose host is 50, the uid of the other two. After the
  mapping the first and the third event agree on fields 1 and 3 and differ in the
  additive field 2 alone; the second differs from both in field 3. The sort compares
  field 2 before field 3, so it puts the second event between the two, the loop finds
  no neighbours to merge, and the call ends as merged with three events: the event of
  the isolated uid has not been added to the event of its host, and two events of the
  result carry uid 50 and 1 in field 3, where the claim has one, with 300 in field 2.
\<close>

theorem isolated_uid_left_unmerged:
  "mapAndMergeIsolatedUidsToHostUid exOps exTables
     [exEvent 10002 [intField 1 99, intField 2 200, intField 3 1],
      exEvent 10002 [intField 1 50, intField 2 150, intField 3 2],
      exEvent 10002 [intField 1 50, intField 2 100, intField 3 1]] exHost 10002
     = (Merged,
        [exEvent 10002 [intField 1 50, intField 2 100, intField 3 1],
         exEvent 10002 [intField 1 50, intField 2 150, intField 3 2],
         exEvent 10002 [intField 1 50, intField 2 200, intField 3 1]])"
  by (simp add: ex_defs)

text \<open>
  The two events of the result with uid 50 and 1 in field 3 are merge-eligible, the
  batch meets "All fields should be present", and the additive field is not last.
\<close>

lemma unmerged_events_eligible:
  "mergeEligible exOps {2}
     (exEvent 10002 [intField 1 50, intField 2 100, intField 3 1])
     (exEvent 10002 [intField 1 50, intField 2 200, intField 3 1])"
  by (simp add: mergeEligible_list_all2 exEvent_def intField_def exOps_def)

lemma unmerged_batch_allFieldsPresent:
  "allFieldsPresent exOps
     [exEvent 10002 [intField 1 99, intField 2 200, intField 3 1],
      exEvent 10002 [intField 1 50, intField 2 150, intField 3 2],
      exEvent 10002 [intField 1 50, intField 2 100, intField 3 1]]"
  by (simp add: allFieldsPresent_def positions_def exEvent_def intField_def exOps_def)

lemma unmerged_event_not_additiveLast:
  "\<not> additiveLast exOps {2} k (exEvent 10002 [intField 1 50, intField 2 100, intField 3 1])"
proof
  assume al: "additiveLast exOps {2} k (exEvent 10002 [intField 1 50, intField 2 100, intField 3 1])"
  have "3 - k \<le> 1"
    using al [unfolded additiveLast_def, rule_format, of 1]
    by (simp add: exEvent_def intField_def exOps_def)
  moreover have "\<not> 3 - k \<le> 2"
    using al [unfolded additiveLast_def, rule_format, of 2]
    by (simp add: exEvent_def intField_def exOps_def)
  ultimately show False by simp
qed

end
